theory Spec2Isabelle
  imports Complex_Main
begin

section \<open>The exchange-rate manager of \<^verbatim>\<open>src/creational/singleton-pattern.py\<close>\<close>

text \<open>
  The module holds one class, \<^verbatim>\<open>ExchangeRateManager\<close>, with a class-level instance slot
  and lock, and per-object fields \<^verbatim>\<open>_rates\<close>, \<^verbatim>\<open>_last_updated\<close> and
  \<^verbatim>\<open>_update_interval\<close>. Python identifiers that start with an underscore lose it here.

  Numbers: Python's \<^verbatim>\<open>float\<close> is modelled by \<^typ>\<open>real\<close>, so arithmetic is exact; the
  literals \<^verbatim>\<open>0.85\<close>, \<^verbatim>\<open>0.02\<close>, ... stand for the decimal fractions they spell.
  What the program reads from its environment is an argument of the model: every call of
  \<^verbatim>\<open>time.time()\<close> is a real number handed in by the caller, and the \<open>i\<close>-th call of
  \<^verbatim>\<open>random.uniform(-0.02, 0.02)\<close> inside one refresh is \<open>fluct i\<close>.
\<close>

subsection \<open>Errors and strings\<close>

datatype error = IndexError | KeyError | ZeroDivisionError

text \<open>\<^verbatim>\<open>s.split(sep)\<close> for a one-character separator: the pieces between the separators,
  empty pieces included, so the result is never empty.\<close>

fun str_split :: "char \<Rightarrow> string \<Rightarrow> string list" where
  "str_split c [] = [[]]"
| "str_split c (x # xs) =
     (if x = c then [] # str_split c xs
      else (case str_split c xs of
              [] \<Rightarrow> [[x]]
            | w # ws \<Rightarrow> (x # w) # ws))"

text \<open>Line 27, \<^verbatim>\<open>f"{from_currency}_{to_currency}"\<close>.\<close>

definition key :: "string \<Rightarrow> string \<Rightarrow> string" where
  "key from_currency to_currency = from_currency @ ''_'' @ to_currency"

text \<open>Line 51, \<^verbatim>\<open>f"{pair.split('_')[1]}_{pair.split('_')[0]}"\<close>: index 1 is read first and
  raises \<^verbatim>\<open>IndexError\<close> when the pair holds no underscore.\<close>

definition reverse_pair :: "string \<Rightarrow> error + string" where
  "reverse_pair pair =
     (case str_split (CHR ''_'') pair of
        a # b # _ \<Rightarrow> Inr (b @ ''_'' @ a)
      | _ \<Rightarrow> Inl IndexError)"

subsection \<open>The object and its methods\<close>

text \<open>The field \<open>printed\<close> is not a field of the Python object: it counts the lines
  \<^verbatim>\<open>Updating exchange rates...\<close> that \<^verbatim>\<open>_update_rates\<close> has written to standard output
  (line 36), one per refresh that was started.\<close>

record manager =
  rates :: "string \<rightharpoonup> real"
  last_updated :: real
  update_interval :: real
  printed :: nat

text \<open>\<^verbatim>\<open>__init__\<close>, lines 12 to 15.\<close>

definition new_manager :: manager where
  "new_manager = \<lparr>rates = Map.empty, last_updated = 0, update_interval = 3600, printed = 0\<rparr>"

text \<open>The local dictionary of lines 39 to 46, in insertion order (the order in which
  \<^verbatim>\<open>items()\<close> yields it).\<close>

definition base_rates :: "(string \<times> real) list" where
  "base_rates =
     [(''USD_EUR'', 0.85),
      (''USD_GBP'', 0.75),
      (''USD_JPY'', 110.0),
      (''EUR_GBP'', 0.88),
      (''EUR_JPY'', 129.5),
      (''GBP_JPY'', 146.7)]"

text \<open>The loop of lines 48 to 52 over the remaining items, \<open>i\<close> counting the draws made so
  far. Line 52 reads \<^verbatim>\<open>self._rates[pair]\<close> back from the dictionary and divides 1 by it.\<close>

fun update_loop ::
  "(string \<times> real) list \<Rightarrow> (nat \<Rightarrow> real) \<Rightarrow> nat \<Rightarrow> (string \<rightharpoonup> real) \<Rightarrow> error + (string \<rightharpoonup> real)"
where
  "update_loop [] fluct i t = Inr t"
| "update_loop ((pair, rate) # ps) fluct i t =
     (let fluctuation = fluct i;
          t1 = t(pair \<mapsto> rate * (1 + fluctuation))
      in case reverse_pair pair of
           Inl e \<Rightarrow> Inl e
         | Inr rp \<Rightarrow>
             (case t1 pair of
                None \<Rightarrow> Inl KeyError
              | Some r \<Rightarrow>
                  if r = 0 then Inl ZeroDivisionError
                  else update_loop ps fluct (Suc i) (t1(rp \<mapsto> 1 / r))))"

text \<open>\<^verbatim>\<open>_update_rates\<close>, lines 35 to 54; \<open>t_end\<close> is the clock reading of line 54. An
  exception leaves the loop before line 54 is reached.\<close>

definition update_rates :: "(nat \<Rightarrow> real) \<Rightarrow> real \<Rightarrow> manager \<Rightarrow> error + manager" where
  "update_rates fluct t_end m =
     (let m1 = m\<lparr>printed := printed m + 1\<rparr>
      in case update_loop base_rates fluct 0 (rates m1) of
           Inl e \<Rightarrow> Inl e
         | Inr t \<Rightarrow> Inr (m1\<lparr>rates := t, last_updated := t_end\<rparr>))"

text \<open>\<^verbatim>\<open>_update_rates_if_needed\<close>, lines 30 to 33; \<open>current_time\<close> is the clock reading
  of line 31.\<close>

definition update_rates_if_needed ::
  "real \<Rightarrow> (nat \<Rightarrow> real) \<Rightarrow> real \<Rightarrow> manager \<Rightarrow> error + manager"
where
  "update_rates_if_needed current_time fluct t_end m =
     (if current_time - last_updated m > update_interval m
      then update_rates fluct t_end m
      else Inr m)"

text \<open>\<^verbatim>\<open>get_rate\<close>, lines 25 to 28: the returned rate and the object after the call.\<close>

definition get_rate ::
  "string \<Rightarrow> string \<Rightarrow> real \<Rightarrow> (nat \<Rightarrow> real) \<Rightarrow> real \<Rightarrow> manager \<Rightarrow> error + (real \<times> manager)"
where
  "get_rate from_currency to_currency current_time fluct t_end m =
     (case update_rates_if_needed current_time fluct t_end m of
        Inl e \<Rightarrow> Inl e
      | Inr m' \<Rightarrow>
          Inr (case rates m' (key from_currency to_currency) of
                 None \<Rightarrow> 1
               | Some r \<Rightarrow> r,
               m'))"

text \<open>The states an object can be in between calls: as \<^verbatim>\<open>__init__\<close> leaves it, or as a
  call of \<^verbatim>\<open>get_rate\<close> that returned leaves it. Nothing else writes the fields.\<close>

inductive reachable :: "manager \<Rightarrow> bool" where
  init: "reachable new_manager"
| call: "reachable m \<Longrightarrow> get_rate a b current_time fluct t_end m = Inr (v, m') \<Longrightarrow> reachable m'"

text \<open>What \<^verbatim>\<open>random.uniform(-0.02, 0.02)\<close> can return.\<close>

definition in_range :: "(nat \<Rightarrow> real) \<Rightarrow> bool" where
  "in_range fluct = (\<forall>i < length base_rates. - 0.02 \<le> fluct i \<and> fluct i \<le> 0.02)"

subsection \<open>The class-level slot\<close>

text \<open>The class attributes of lines 9 and 10 and the objects constructed so far. A
  reference is the index of the object in \<open>objects\<close>. Without other threads the lock of
  line 20 is free when it is taken and free again after the block.\<close>

record cls =
  instance_slot :: "nat option"
  objects :: "manager list"

definition cls_init :: cls where
  "cls_init = \<lparr>instance_slot = None, objects = []\<rparr>"

text \<open>\<^verbatim>\<open>cls()\<close> of line 22: allocate an object, run \<^verbatim>\<open>__init__\<close>, return its reference.\<close>

definition construct :: "cls \<Rightarrow> nat \<times> cls" where
  "construct c = (length (objects c), c\<lparr>objects := objects c @ [new_manager]\<rparr>)"

text \<open>\<^verbatim>\<open>get_instance\<close>, lines 17 to 23. An object of this class is truthy (the class
  defines neither \<^verbatim>\<open>__bool__\<close> nor \<^verbatim>\<open>__len__\<close>), so \<^verbatim>\<open>not cls._instance\<close> holds exactly
  when the slot is \<^verbatim>\<open>None\<close>. The result is what line 23 reads from the slot.\<close>

definition get_instance :: "cls \<Rightarrow> nat option \<times> cls" where
  "get_instance c =
     (let c' =
        (if instance_slot c = None then
           (if instance_slot c = None then
              (let (r, c1) = construct c in c1\<lparr>instance_slot := Some r\<rparr>)
            else c)
         else c)
      in (instance_slot c', c'))"

text \<open>A sequence of \<open>n\<close> calls, one after the other: the references returned, in order, and
  the class state at the end.\<close>

fun get_instances :: "nat \<Rightarrow> cls \<Rightarrow> nat option list \<times> cls" where
  "get_instances 0 c = ([], c)"
| "get_instances (Suc n) c =
     (let (r, c1) = get_instance c;
          (rs, c2) = get_instances n c1
      in (r # rs, c2))"

subsection \<open>Overlapping calls of \<^verbatim>\<open>get_instance\<close>\<close>

text \<open>
  Several threads calling \<^verbatim>\<open>get_instance\<close>. A thread is at one of these places:
  \<^item> \<open>Outer\<close>: before the test of line 19;
  \<^item> \<open>Acquire\<close>: before line 20, waiting for the lock;
  \<^item> \<open>Inner\<close>: holding the lock, before the test of line 21;
  \<^item> \<open>Construct\<close>: before the call \<^verbatim>\<open>cls()\<close> of line 22;
  \<^item> \<open>Assign r\<close>: \<^verbatim>\<open>cls()\<close> has returned the reference \<open>r\<close>, before the store into the slot;
  \<^item> \<open>Release\<close>: at the end of the \<^verbatim>\<open>with\<close> block;
  \<^item> \<open>Return\<close>: before line 23;
  \<^item> \<open>Got v\<close>: the call has returned \<open>v\<close>.

  Each step reads or writes the slot at most once. The lock is free (\<open>None\<close>) or held; the
  model records which thread holds it.
\<close>

datatype ipc = Outer | Acquire | Inner | Construct | Assign nat | Release | Return | Got "nat option"

record isystem =
  klass :: cls
  lock :: "nat option"
  ithreads :: "ipc list"

text \<open>One step of thread \<open>tid\<close>. A thread at \<open>Acquire\<close> stays there while the lock is held.\<close>

fun istep :: "nat \<Rightarrow> ipc \<Rightarrow> cls \<Rightarrow> nat option \<Rightarrow> ipc \<times> cls \<times> nat option" where
  "istep tid Outer c l = (if instance_slot c = None then (Acquire, c, l) else (Return, c, l))"
| "istep tid Acquire c l = (if l = None then (Inner, c, Some tid) else (Acquire, c, l))"
| "istep tid Inner c l = (if instance_slot c = None then (Construct, c, l) else (Release, c, l))"
| "istep tid Construct c l = (let (r, c1) = construct c in (Assign r, c1, l))"
| "istep tid (Assign r) c l = (Release, c\<lparr>instance_slot := Some r\<rparr>, l)"
| "istep tid Release c l = (Return, c, None)"
| "istep tid Return c l = (Got (instance_slot c), c, l)"
| "istep tid (Got v) c l = (Got v, c, l)"

definition iexec :: "nat \<Rightarrow> isystem \<Rightarrow> isystem" where
  "iexec tid s =
     (if tid < length (ithreads s)
      then (let (p, c, l) = istep tid (ithreads s ! tid) (klass s) (lock s)
            in \<lparr>klass = c, lock = l, ithreads = (ithreads s)[tid := p]\<rparr>)
      else s)"

text \<open>A schedule names the thread that takes the next step.\<close>

definition irun :: "nat list \<Rightarrow> isystem \<Rightarrow> isystem" where
  "irun sched s = fold iexec sched s"

text \<open>\<open>n\<close> threads about to call \<^verbatim>\<open>get_instance\<close> on the freshly loaded class.\<close>

definition istart :: "nat \<Rightarrow> isystem" where
  "istart n = \<lparr>klass = cls_init, lock = None, ithreads = replicate n Outer\<rparr>"

subsection \<open>Overlapping calls of \<^verbatim>\<open>get_rate\<close>\<close>

text \<open>
  Several threads calling \<^verbatim>\<open>get_rate\<close> on the one object. A thread is at one of these
  places of the code:
  \<^item> \<open>Check\<close>: before lines 31 and 32;
  \<^item> \<open>Fwd i\<close>: in iteration \<open>i\<close> of the loop, before lines 49 and 50;
  \<^item> \<open>Rev i\<close>: in iteration \<open>i\<close>, before lines 51 and 52;
  \<^item> \<open>Stamp\<close>: before line 54;
  \<^item> \<open>Lookup\<close>: before lines 27 and 28;
  \<^item> \<open>Returned v\<close> or \<open>Raised e\<close>: the call is over.

  One step runs the lines up to the next place without interruption. The interpreter may
  switch threads more often than that, so every run of this model is a run of the program;
  the model is used to exhibit runs, not to exclude them. The method takes no lock
  anywhere between line 25 and line 54.
\<close>

datatype pc = Check | Fwd nat | Rev nat | Stamp | Lookup | Returned real | Raised error

record thread =
  pc :: pc
  from_currency :: string
  to_currency :: string

definition next_iter :: "nat \<Rightarrow> pc" where
  "next_iter i = (if i < length base_rates then Fwd i else Stamp)"

text \<open>One step of a thread on the shared object; \<open>clock\<close> is what \<^verbatim>\<open>time.time()\<close> returns
  if the step calls it, \<open>draw\<close> what \<^verbatim>\<open>random.uniform\<close> returns if the step calls it.\<close>

fun thread_step :: "real \<Rightarrow> real \<Rightarrow> thread \<Rightarrow> manager \<Rightarrow> pc \<times> manager" where
  "thread_step clock draw th m =
     (case pc th of
        Check \<Rightarrow>
          if clock - last_updated m > update_interval m
          then (next_iter 0, m\<lparr>printed := printed m + 1\<rparr>)
          else (Lookup, m)
      | Fwd i \<Rightarrow>
          if i < length base_rates
          then (let (pair, rate) = base_rates ! i
                in (Rev i, m\<lparr>rates := (rates m)(pair \<mapsto> rate * (1 + draw))\<rparr>))
          else (Stamp, m)
      | Rev i \<Rightarrow>
          if i < length base_rates
          then (let (pair, rate) = base_rates ! i
                in case reverse_pair pair of
                     Inl e \<Rightarrow> (Raised e, m)
                   | Inr rp \<Rightarrow>
                       (case rates m pair of
                          None \<Rightarrow> (Raised KeyError, m)
                        | Some r \<Rightarrow>
                            if r = 0 then (Raised ZeroDivisionError, m)
                            else (next_iter (Suc i), m\<lparr>rates := (rates m)(rp \<mapsto> 1 / r)\<rparr>)))
          else (Stamp, m)
      | Stamp \<Rightarrow> (Lookup, m\<lparr>last_updated := clock\<rparr>)
      | Lookup \<Rightarrow>
          (Returned (case rates m (key (from_currency th) (to_currency th)) of
                       None \<Rightarrow> 1
                     | Some r \<Rightarrow> r),
           m)
      | Returned v \<Rightarrow> (Returned v, m)
      | Raised e \<Rightarrow> (Raised e, m))"

record system =
  shared :: manager
  threads :: "thread list"

text \<open>A scheduling event: which thread runs its next step, and the clock reading and the
  random draw available to that step.\<close>

type_synonym event = "nat \<times> real \<times> real"

fun exec :: "event \<Rightarrow> system \<Rightarrow> system" where
  "exec (tid, clock, draw) s =
     (if tid < length (threads s)
      then (let th = threads s ! tid;
                (p, m) = thread_step clock draw th (shared s)
            in s\<lparr>shared := m, threads := (threads s)[tid := th\<lparr>pc := p\<rparr>]\<rparr>)
      else s)"

definition run :: "event list \<Rightarrow> system \<Rightarrow> system" where
  "run evs s = fold exec evs s"

definition caller :: "string \<Rightarrow> string \<Rightarrow> thread" where
  "caller a b = \<lparr>pc = Check, from_currency = a, to_currency = b\<rparr>"

subsection \<open>Sequences of calls, and a fixed stream of draws\<close>

text \<open>The arguments of one call of \<^verbatim>\<open>get_rate\<close> together with what it reads from the
  environment: the two codes, the clock reading of line 31, the draws, the clock reading of
  line 54.\<close>

type_synonym call = "string \<times> string \<times> real \<times> (nat \<Rightarrow> real) \<times> real"

text \<open>Calls made one after the other on the same object, each starting when the one
  before it has returned: the rates returned, in order, and the object at the end.\<close>

fun get_rates :: "call list \<Rightarrow> manager \<Rightarrow> error + (real list \<times> manager)" where
  "get_rates [] m = Inr ([], m)"
| "get_rates ((a, b, current_time, fluct, t_end) # cs) m =
     (case get_rate a b current_time fluct t_end m of
        Inl e \<Rightarrow> Inl e
      | Inr (v, m1) \<Rightarrow>
          (case get_rates cs m1 of
             Inl e \<Rightarrow> Inl e
           | Inr (vs, m2) \<Rightarrow> Inr (v # vs, m2)))"

text \<open>One possible outcome of the draws: every fluctuation is 0.\<close>

definition steady :: "nat \<Rightarrow> real" where
  "steady i = 0"

text \<open>The events that take thread \<open>tid\<close> from \<open>Fwd 0\<close> through the whole loop, line 54
  and the lookup, with nothing in between: draw \<open>fluct i\<close> in iteration \<open>i\<close> and clock
  reading \<open>t_end\<close> at line 54. A step that does not read the clock or draw ignores
  that component, written 0 here.\<close>

definition refresh_events :: "nat \<Rightarrow> (nat \<Rightarrow> real) \<Rightarrow> real \<Rightarrow> event list" where
  "refresh_events tid fluct t_end =
     concat (map (\<lambda>i. [(tid, 0, fluct i), (tid, 0, 0)]) [0 ..< length base_rates])
     @ [(tid, t_end, 0), (tid, 0, 0)]"

text \<open>The table a refresh leaves when every fluctuation is 0, and the object a first
  refresh with these draws leaves when line 54 reads the clock as \<open>t\<close>.\<close>

definition steady_table :: "string \<rightharpoonup> real" where
  "steady_table =
     [''USD_EUR'' \<mapsto> 0.85, ''EUR_USD'' \<mapsto> 1 / 0.85,
      ''USD_GBP'' \<mapsto> 0.75, ''GBP_USD'' \<mapsto> 1 / 0.75,
      ''USD_JPY'' \<mapsto> 110.0, ''JPY_USD'' \<mapsto> 1 / 110.0,
      ''EUR_GBP'' \<mapsto> 0.88, ''GBP_EUR'' \<mapsto> 1 / 0.88,
      ''EUR_JPY'' \<mapsto> 129.5, ''JPY_EUR'' \<mapsto> 1 / 129.5,
      ''GBP_JPY'' \<mapsto> 146.7, ''JPY_GBP'' \<mapsto> 1 / 146.7]"

definition refreshed :: "real \<Rightarrow> manager" where
  "refreshed t = \<lparr>rates = steady_table, last_updated = t, update_interval = 3600, printed = 1\<rparr>"

text \<open>Another possible outcome of the draws: every fluctuation is the upper bound 0.02.\<close>

definition peak :: "nat \<Rightarrow> real" where
  "peak i = 0.02"

subsection \<open>Predicates used to state the properties\<close>

text \<open>The keys the loop writes: each key of \<open>base_rates\<close> followed by its reverse.\<close>

definition all_keys :: "string list" where
  "all_keys =
     concat (map (\<lambda>(pair, rate). pair # (case reverse_pair pair of Inr rp \<Rightarrow> [rp] | Inl e \<Rightarrow> []))
       base_rates)"

text \<open>A table is consistent when it holds written keys only, no rate is 0, and every
  stored key has its reverse stored with the reciprocal rate.\<close>

definition consistent :: "(string \<rightharpoonup> real) \<Rightarrow> bool" where
  "consistent t =
     (dom t \<subseteq> set all_keys \<and>
      (\<forall>k x. t k = Some x \<longrightarrow> x \<noteq> 0 \<and> (\<exists>q. reverse_pair k = Inr q \<and> t q = Some (1 / x))))"

text \<open>The places at which a thread holds the lock.\<close>

fun crit :: "ipc \<Rightarrow> bool" where
  "crit Inner = True"
| "crit Construct = True"
| "crit (Assign r) = True"
| "crit Release = True"
| "crit p = False"

text \<open>What a thread at a given place can rely on about the class.\<close>

fun at_ok :: "cls \<Rightarrow> ipc \<Rightarrow> bool" where
  "at_ok c Construct = (instance_slot c = None \<and> objects c = [])"
| "at_ok c (Assign r) = (instance_slot c = None \<and> r = 0 \<and> objects c = [new_manager])"
| "at_ok c Release = (instance_slot c = Some 0)"
| "at_ok c Return = (instance_slot c = Some 0)"
| "at_ok c (Got v) = (v = Some 0 \<and> instance_slot c = Some 0)"
| "at_ok c p = True"

text \<open>The invariant of the interleaved calls: the holder of the lock is the one thread
  inside the block; every thread's place agrees with the class; and an object exists
  exactly when the slot is set or a thread is about to set it.\<close>

definition inst_inv :: "isystem \<Rightarrow> bool" where
  "inst_inv s =
     ((\<forall>tid < length (ithreads s). crit (ithreads s ! tid) \<longleftrightarrow> lock s = Some tid) \<and>
      (\<forall>tid < length (ithreads s). at_ok (klass s) (ithreads s ! tid)) \<and>
      (case instance_slot (klass s) of
         Some r \<Rightarrow> r = 0 \<and> objects (klass s) = [new_manager]
       | None \<Rightarrow> objects (klass s) = [] \<or>
                 (objects (klass s) = [new_manager] \<and>
                  (\<exists>tid < length (ithreads s). ithreads s ! tid = Assign 0))))"

text \<open>The ASCII lower-case letters.\<close>

definition lower_case :: "char \<Rightarrow> bool" where
  "lower_case c = (c \<in> set ''abcdefghijklmnopqrstuvwxyz'')"

section \<open>Properties\<close>

subsection \<open>Strings and keys\<close>

lemma reverse_pair_base:
  "reverse_pair ''USD_EUR'' = Inr ''EUR_USD''"
  "reverse_pair ''USD_GBP'' = Inr ''GBP_USD''"
  "reverse_pair ''USD_JPY'' = Inr ''JPY_USD''"
  "reverse_pair ''EUR_GBP'' = Inr ''GBP_EUR''"
  "reverse_pair ''EUR_JPY'' = Inr ''JPY_EUR''"
  "reverse_pair ''GBP_JPY'' = Inr ''JPY_GBP''"
  by (simp_all add: reverse_pair_def)

lemma reverse_pair_rev:
  "reverse_pair ''EUR_USD'' = Inr ''USD_EUR''"
  "reverse_pair ''GBP_USD'' = Inr ''USD_GBP''"
  "reverse_pair ''JPY_USD'' = Inr ''USD_JPY''"
  "reverse_pair ''GBP_EUR'' = Inr ''EUR_GBP''"
  "reverse_pair ''JPY_EUR'' = Inr ''EUR_JPY''"
  "reverse_pair ''JPY_GBP'' = Inr ''GBP_JPY''"
  by (simp_all add: reverse_pair_def)

lemma all_keys_eq:
  "all_keys = [''USD_EUR'', ''EUR_USD'', ''USD_GBP'', ''GBP_USD'', ''USD_JPY'', ''JPY_USD'',
               ''EUR_GBP'', ''GBP_EUR'', ''EUR_JPY'', ''JPY_EUR'', ''GBP_JPY'', ''JPY_GBP'']"
  by (simp add: all_keys_def base_rates_def reverse_pair_base)

lemma all_keys_cases:
  assumes "k \<in> set all_keys"
  obtains "k = ''USD_EUR''" | "k = ''EUR_USD''" | "k = ''USD_GBP''" | "k = ''GBP_USD''"
      | "k = ''USD_JPY''" | "k = ''JPY_USD''" | "k = ''EUR_GBP''" | "k = ''GBP_EUR''"
      | "k = ''EUR_JPY''" | "k = ''JPY_EUR''" | "k = ''GBP_JPY''" | "k = ''JPY_GBP''"
proof -
  from assms have "k = ''USD_EUR'' \<or> k = ''EUR_USD'' \<or> k = ''USD_GBP'' \<or> k = ''GBP_USD''
      \<or> k = ''USD_JPY'' \<or> k = ''JPY_USD'' \<or> k = ''EUR_GBP'' \<or> k = ''GBP_EUR''
      \<or> k = ''EUR_JPY'' \<or> k = ''JPY_EUR'' \<or> k = ''GBP_JPY'' \<or> k = ''JPY_GBP''"
    by (simp only: all_keys_eq list.set insert_iff empty_iff simp_thms)
  then show thesis
    by (elim disjE) (erule that)+
qed

lemma str_split_no_sep: "c \<notin> set xs \<Longrightarrow> str_split c xs = [xs]"
  by (induction xs) auto

lemma str_split_append: "c \<notin> set xs \<Longrightarrow> str_split c (xs @ c # ys) = xs # str_split c ys"
  by (induction xs) auto

lemma reverse_pair_key:
  assumes "CHR ''_'' \<notin> set a" "CHR ''_'' \<notin> set b"
  shows "reverse_pair (key a b) = Inr (key b a)"
  using assms by (simp add: reverse_pair_def key_def str_split_append str_split_no_sep)

lemma count_key:
  "count_list (key a b) (CHR ''_'') = Suc (count_list a (CHR ''_'') + count_list b (CHR ''_''))"
  by (simp add: key_def)

lemma all_keys_count:
  assumes "k \<in> set all_keys"
  shows "count_list k (CHR ''_'') = 1"
  using assms by (cases rule: all_keys_cases) simp_all

lemma key_in_all_keys:
  assumes "key a b \<in> set all_keys"
  shows "CHR ''_'' \<notin> set a" "CHR ''_'' \<notin> set b"
proof -
  from all_keys_count [OF assms] have "count_list a (CHR ''_'') = 0 \<and> count_list b (CHR ''_'') = 0"
    by (simp add: count_key)
  then show "CHR ''_'' \<notin> set a" "CHR ''_'' \<notin> set b"
    by (simp_all add: count_list_0_iff)
qed

lemma all_keys_not_self:
  assumes "k \<in> set all_keys"
  shows "reverse_pair k \<noteq> Inr k"
  using assms by (cases rule: all_keys_cases) (simp_all add: reverse_pair_base reverse_pair_rev)

lemma key_self_not_stored: "key x x \<notin> set all_keys"
proof
  assume a: "key x x \<in> set all_keys"
  from reverse_pair_key [OF key_in_all_keys [OF a]] all_keys_not_self [OF a] show False by simp
qed

lemma all_keys_upper:
  assumes "k \<in> set all_keys" "c \<in> set k"
  shows "\<not> lower_case c"
  using assms by (cases rule: all_keys_cases) (auto simp: lower_case_def)

subsection \<open>The refresh loop on the fixed base rates\<close>

lemma less_6: "(i::nat) < 6 \<longleftrightarrow> i = 0 \<or> i = 1 \<or> i = 2 \<or> i = 3 \<or> i = 4 \<or> i = 5"
  by auto

lemma base_rates_index:
  assumes "i < length base_rates"
  shows "i = 0 \<or> i = 1 \<or> i = 2 \<or> i = 3 \<or> i = 4 \<or> i = 5"
proof -
  from assms have "i < 6" by (simp add: base_rates_def)
  then show ?thesis by (rule less_6 [THEN iffD1])
qed

lemma base_rates_nth:
  "base_rates ! 0 = (''USD_EUR'', 0.85)" "base_rates ! 1 = (''USD_GBP'', 0.75)"
  "base_rates ! 2 = (''USD_JPY'', 110.0)" "base_rates ! 3 = (''EUR_GBP'', 0.88)"
  "base_rates ! 4 = (''EUR_JPY'', 129.5)" "base_rates ! 5 = (''GBP_JPY'', 146.7)"
  "base_rates ! Suc 0 = (''USD_GBP'', 0.75)"
  by (simp_all add: base_rates_def)

lemma in_range_nonzero: "in_range fluct \<Longrightarrow> i < 6 \<Longrightarrow> 1 + fluct i \<noteq> 0"
proof -
  assume a: "in_range fluct" "i < 6"
  then have "- 0.02 \<le> fluct i" by (simp add: in_range_def base_rates_def)
  then have "- (1/50) \<le> fluct i" by simp
  then show ?thesis by linarith
qed

lemma update_loop_step:
  assumes "reverse_pair pair = Inr rp" "rate * (1 + fluct i) \<noteq> 0"
  shows "update_loop ((pair, rate) # ps) fluct i t =
         update_loop ps fluct (Suc i) (t(pair \<mapsto> rate * (1 + fluct i), rp \<mapsto> 1 / (rate * (1 + fluct i))))"
  using assms by (simp add: Let_def)

lemma update_loop_step_zero:
  assumes "reverse_pair pair = Inr rp" "rate * (1 + fluct i) = 0"
  shows "update_loop ((pair, rate) # ps) fluct i t = Inl ZeroDivisionError"
  using assms by (simp add: Let_def)

lemma update_loop_base:
  assumes "\<And>i. i < 6 \<Longrightarrow> 1 + fluct i \<noteq> 0"
  shows "update_loop base_rates fluct 0 t = Inr (t(
     ''USD_EUR'' \<mapsto> 0.85 * (1 + fluct 0), ''EUR_USD'' \<mapsto> 1 / (0.85 * (1 + fluct 0)),
     ''USD_GBP'' \<mapsto> 0.75 * (1 + fluct 1), ''GBP_USD'' \<mapsto> 1 / (0.75 * (1 + fluct 1)),
     ''USD_JPY'' \<mapsto> 110.0 * (1 + fluct 2), ''JPY_USD'' \<mapsto> 1 / (110.0 * (1 + fluct 2)),
     ''EUR_GBP'' \<mapsto> 0.88 * (1 + fluct 3), ''GBP_EUR'' \<mapsto> 1 / (0.88 * (1 + fluct 3)),
     ''EUR_JPY'' \<mapsto> 129.5 * (1 + fluct 4), ''JPY_EUR'' \<mapsto> 1 / (129.5 * (1 + fluct 4)),
     ''GBP_JPY'' \<mapsto> 146.7 * (1 + fluct 5), ''JPY_GBP'' \<mapsto> 1 / (146.7 * (1 + fluct 5))))"
proof -
  have nz: "1 + fluct 0 \<noteq> 0" "1 + fluct 1 \<noteq> 0" "1 + fluct 2 \<noteq> 0"
           "1 + fluct 3 \<noteq> 0" "1 + fluct 4 \<noteq> 0" "1 + fluct 5 \<noteq> 0"
    using assms by simp_all
  show ?thesis
    using nz by (simp add: base_rates_def reverse_pair_base eval_nat_numeral Let_def)
qed

lemma update_loop_Inr_nonzero:
  assumes "update_loop base_rates fluct 0 t = Inr t'" "i < 6"
  shows "1 + fluct i \<noteq> 0"
proof
  assume z: "1 + fluct i = 0"
  from assms(2) consider "i = 0" | "i = 1" | "i = 2" | "i = 3" | "i = 4" | "i = 5"
    by (auto simp: less_6)
  then have "update_loop base_rates fluct 0 t = Inl ZeroDivisionError"
  proof cases
    case 1 with z show ?thesis by (simp add: base_rates_def reverse_pair_base Let_def)
  next
    case 2 with z show ?thesis by (simp add: base_rates_def reverse_pair_base Let_def eval_nat_numeral)
  next
    case 3 with z show ?thesis by (simp add: base_rates_def reverse_pair_base Let_def eval_nat_numeral)
  next
    case 4 with z show ?thesis by (simp add: base_rates_def reverse_pair_base Let_def eval_nat_numeral)
  next
    case 5 with z show ?thesis by (simp add: base_rates_def reverse_pair_base Let_def eval_nat_numeral)
  next
    case 6 with z show ?thesis by (simp add: base_rates_def reverse_pair_base Let_def eval_nat_numeral)
  qed
  with assms(1) show False by simp
qed

lemma update_loop_entries:
  assumes "update_loop base_rates fluct 0 t = Inr t'"
  shows "t' ''USD_EUR'' = Some (0.85 * (1 + fluct 0))" "t' ''EUR_USD'' = Some (1 / (0.85 * (1 + fluct 0)))"
    "t' ''USD_GBP'' = Some (0.75 * (1 + fluct 1))" "t' ''GBP_USD'' = Some (1 / (0.75 * (1 + fluct 1)))"
    "t' ''USD_JPY'' = Some (110.0 * (1 + fluct 2))" "t' ''JPY_USD'' = Some (1 / (110.0 * (1 + fluct 2)))"
    "t' ''EUR_GBP'' = Some (0.88 * (1 + fluct 3))" "t' ''GBP_EUR'' = Some (1 / (0.88 * (1 + fluct 3)))"
    "t' ''EUR_JPY'' = Some (129.5 * (1 + fluct 4))" "t' ''JPY_EUR'' = Some (1 / (129.5 * (1 + fluct 4)))"
    "t' ''GBP_JPY'' = Some (146.7 * (1 + fluct 5))" "t' ''JPY_GBP'' = Some (1 / (146.7 * (1 + fluct 5)))"
    "k \<notin> set all_keys \<Longrightarrow> t' k = t k"
proof -
  have nz: "\<And>i. i < 6 \<Longrightarrow> 1 + fluct i \<noteq> 0"
    using update_loop_Inr_nonzero [OF assms] .
  have eq: "t' = t(
     ''USD_EUR'' \<mapsto> 0.85 * (1 + fluct 0), ''EUR_USD'' \<mapsto> 1 / (0.85 * (1 + fluct 0)),
     ''USD_GBP'' \<mapsto> 0.75 * (1 + fluct 1), ''GBP_USD'' \<mapsto> 1 / (0.75 * (1 + fluct 1)),
     ''USD_JPY'' \<mapsto> 110.0 * (1 + fluct 2), ''JPY_USD'' \<mapsto> 1 / (110.0 * (1 + fluct 2)),
     ''EUR_GBP'' \<mapsto> 0.88 * (1 + fluct 3), ''GBP_EUR'' \<mapsto> 1 / (0.88 * (1 + fluct 3)),
     ''EUR_JPY'' \<mapsto> 129.5 * (1 + fluct 4), ''JPY_EUR'' \<mapsto> 1 / (129.5 * (1 + fluct 4)),
     ''GBP_JPY'' \<mapsto> 146.7 * (1 + fluct 5), ''JPY_GBP'' \<mapsto> 1 / (146.7 * (1 + fluct 5)))"
    using update_loop_base [of fluct t, OF nz] assms by simp
  show "t' ''USD_EUR'' = Some (0.85 * (1 + fluct 0))" by (subst eq) simp
  show "t' ''EUR_USD'' = Some (1 / (0.85 * (1 + fluct 0)))" by (subst eq) simp
  show "t' ''USD_GBP'' = Some (0.75 * (1 + fluct 1))" by (subst eq) simp
  show "t' ''GBP_USD'' = Some (1 / (0.75 * (1 + fluct 1)))" by (subst eq) simp
  show "t' ''USD_JPY'' = Some (110.0 * (1 + fluct 2))" by (subst eq) simp
  show "t' ''JPY_USD'' = Some (1 / (110.0 * (1 + fluct 2)))" by (subst eq) simp
  show "t' ''EUR_GBP'' = Some (0.88 * (1 + fluct 3))" by (subst eq) simp
  show "t' ''GBP_EUR'' = Some (1 / (0.88 * (1 + fluct 3)))" by (subst eq) simp
  show "t' ''EUR_JPY'' = Some (129.5 * (1 + fluct 4))" by (subst eq) simp
  show "t' ''JPY_EUR'' = Some (1 / (129.5 * (1 + fluct 4)))" by (subst eq) simp
  show "t' ''GBP_JPY'' = Some (146.7 * (1 + fluct 5))" by (subst eq) simp
  show "t' ''JPY_GBP'' = Some (1 / (146.7 * (1 + fluct 5)))" by (subst eq) simp
  show "k \<notin> set all_keys \<Longrightarrow> t' k = t k" by (subst eq) (simp add: all_keys_eq)
qed

lemma update_loop_total:
  assumes "in_range fluct"
  shows "\<exists>t'. update_loop base_rates fluct 0 t = Inr t'"
  using update_loop_base [of fluct t] in_range_nonzero [OF assms] by blast

lemma update_rates_Inr:
  "update_rates fluct t_end m = Inr m' \<longleftrightarrow>
   (\<exists>t'. update_loop base_rates fluct 0 (rates m) = Inr t' \<and>
         m' = m\<lparr>printed := printed m + 1, rates := t', last_updated := t_end\<rparr>)"
  by (auto simp: update_rates_def Let_def split: sum.splits)

lemma update_rates_total:
  assumes "in_range fluct"
  shows "\<exists>m'. update_rates fluct t_end m = Inr m'"
  using update_loop_total [OF assms, of "rates m"] by (auto simp: update_rates_Inr)

lemma update_rates_if_needed_total:
  assumes "in_range fluct"
  shows "\<exists>m'. update_rates_if_needed current_time fluct t_end m = Inr m'"
  using update_rates_total [OF assms, of t_end m] by (simp add: update_rates_if_needed_def)

lemma get_rate_Inr:
  "get_rate a b current_time fluct t_end m = Inr (v, m') \<longleftrightarrow>
   update_rates_if_needed current_time fluct t_end m = Inr m' \<and>
   v = (case rates m' (key a b) of None \<Rightarrow> 1 | Some r \<Rightarrow> r)"
  by (auto simp: get_rate_def split: sum.splits)

lemma fresh_call:
  assumes "\<not> current_time - last_updated m > update_interval m"
  shows "get_rate a b current_time fluct t_end m =
           Inr (case rates m (key a b) of None \<Rightarrow> 1 | Some r \<Rightarrow> r, m)"
  using assms by (simp add: get_rate_def update_rates_if_needed_def)

subsection \<open>What holds of every object between calls\<close>

lemma consistent_empty: "consistent Map.empty"
  by (simp add: consistent_def)

lemma consistent_dom: "consistent t \<Longrightarrow> dom t \<subseteq> set all_keys"
  by (simp add: consistent_def)

lemma mult_nz: "a \<noteq> 0 \<Longrightarrow> b \<noteq> 0 \<Longrightarrow> a * b \<noteq> (0::real)"
  by simp

lemma recip_fwd:
  "t p = Some r \<Longrightarrow> t q = Some (1 / r) \<Longrightarrow> r \<noteq> 0 \<Longrightarrow> reverse_pair p = Inr q \<Longrightarrow> t p = Some x \<Longrightarrow>
   x \<noteq> 0 \<and> (\<exists>q'. reverse_pair p = Inr q' \<and> t q' = Some (1 / x))"
  for t :: "string \<rightharpoonup> real"
  by auto

lemma recip_bwd:
  "t p = Some r \<Longrightarrow> t q = Some (1 / r) \<Longrightarrow> r \<noteq> 0 \<Longrightarrow> reverse_pair q = Inr p \<Longrightarrow> t q = Some x \<Longrightarrow>
   x \<noteq> 0 \<and> (\<exists>q'. reverse_pair q = Inr q' \<and> t q' = Some (1 / x))"
  for t :: "string \<rightharpoonup> real"
  by auto

lemma consistent_refresh:
  assumes "dom t \<subseteq> set all_keys" and "update_loop base_rates fluct 0 t = Inr t'"
  shows "consistent t'"
proof -
  have nz: "1 + fluct 0 \<noteq> 0" "1 + fluct 1 \<noteq> 0" "1 + fluct 2 \<noteq> 0"
           "1 + fluct 3 \<noteq> 0" "1 + fluct 4 \<noteq> 0" "1 + fluct 5 \<noteq> 0"
    using update_loop_Inr_nonzero [OF assms(2)] by simp_all
  have c: "(0.85::real) \<noteq> 0" "(0.75::real) \<noteq> 0" "(110.0::real) \<noteq> 0"
          "(0.88::real) \<noteq> 0" "(129.5::real) \<noteq> 0" "(146.7::real) \<noteq> 0"
    by simp_all
  note e = update_loop_entries [OF assms(2)]
  have d: "k \<in> set all_keys" if "t' k = Some x" for k x
  proof (rule ccontr)
    assume "k \<notin> set all_keys"
    with e(13) that have "t k = Some x" by simp
    with assms(1) \<open>k \<notin> set all_keys\<close> show False by blast
  qed
  have r: "x \<noteq> 0 \<and> (\<exists>q. reverse_pair k = Inr q \<and> t' q = Some (1 / x))" if tk: "t' k = Some x" for k x
  proof -
    from d [OF tk] show ?thesis
    proof (cases rule: all_keys_cases)
      case 1
      show ?thesis unfolding 1
        by (rule recip_fwd [OF e(1) e(2) mult_nz [OF c(1) nz(1)] reverse_pair_base(1) tk [unfolded 1]])
    next
      case 2
      show ?thesis unfolding 2
        by (rule recip_bwd [OF e(1) e(2) mult_nz [OF c(1) nz(1)] reverse_pair_rev(1) tk [unfolded 2]])
    next
      case 3
      show ?thesis unfolding 3
        by (rule recip_fwd [OF e(3) e(4) mult_nz [OF c(2) nz(2)] reverse_pair_base(2) tk [unfolded 3]])
    next
      case 4
      show ?thesis unfolding 4
        by (rule recip_bwd [OF e(3) e(4) mult_nz [OF c(2) nz(2)] reverse_pair_rev(2) tk [unfolded 4]])
    next
      case 5
      show ?thesis unfolding 5
        by (rule recip_fwd [OF e(5) e(6) mult_nz [OF c(3) nz(3)] reverse_pair_base(3) tk [unfolded 5]])
    next
      case 6
      show ?thesis unfolding 6
        by (rule recip_bwd [OF e(5) e(6) mult_nz [OF c(3) nz(3)] reverse_pair_rev(3) tk [unfolded 6]])
    next
      case 7
      show ?thesis unfolding 7
        by (rule recip_fwd [OF e(7) e(8) mult_nz [OF c(4) nz(4)] reverse_pair_base(4) tk [unfolded 7]])
    next
      case 8
      show ?thesis unfolding 8
        by (rule recip_bwd [OF e(7) e(8) mult_nz [OF c(4) nz(4)] reverse_pair_rev(4) tk [unfolded 8]])
    next
      case 9
      show ?thesis unfolding 9
        by (rule recip_fwd [OF e(9) e(10) mult_nz [OF c(5) nz(5)] reverse_pair_base(5) tk [unfolded 9]])
    next
      case 10
      show ?thesis unfolding 10
        by (rule recip_bwd [OF e(9) e(10) mult_nz [OF c(5) nz(5)] reverse_pair_rev(5) tk [unfolded 10]])
    next
      case 11
      show ?thesis unfolding 11
        by (rule recip_fwd [OF e(11) e(12) mult_nz [OF c(6) nz(6)] reverse_pair_base(6) tk [unfolded 11]])
    next
      case 12
      show ?thesis unfolding 12
        by (rule recip_bwd [OF e(11) e(12) mult_nz [OF c(6) nz(6)] reverse_pair_rev(6) tk [unfolded 12]])
    qed
  qed
  show ?thesis unfolding consistent_def using d r by blast
qed

lemma update_rates_if_needed_inv:
  assumes "update_interval m = 3600 \<and> consistent (rates m)"
    and "update_rates_if_needed current_time fluct t_end m = Inr m'"
  shows "update_interval m' = 3600 \<and> consistent (rates m')"
proof (cases "current_time - last_updated m > update_interval m")
  case False
  with assms show ?thesis by (simp add: update_rates_if_needed_def)
next
  case True
  with assms(2) have "update_rates fluct t_end m = Inr m'"
    by (simp add: update_rates_if_needed_def)
  then obtain t' where t': "update_loop base_rates fluct 0 (rates m) = Inr t'"
    and m': "m' = m\<lparr>printed := printed m + 1, rates := t', last_updated := t_end\<rparr>"
    unfolding update_rates_Inr by blast
  from assms(1) have "dom (rates m) \<subseteq> set all_keys" by (simp add: consistent_dom)
  from consistent_refresh [OF this t'] assms(1) show ?thesis by (simp add: m')
qed

lemma reachable_inv:
  "reachable m \<Longrightarrow> update_interval m = 3600 \<and> consistent (rates m)"
proof (induction rule: reachable.induct)
  case init
  show ?case by (simp add: new_manager_def consistent_empty)
next
  case (call m a b current_time fluct t_end v m')
  from call.hyps(2) have "update_rates_if_needed current_time fluct t_end m = Inr m'"
    by (simp add: get_rate_Inr)
  from update_rates_if_needed_inv [OF call.IH this] show ?case .
qed

subsection \<open>Concrete runs\<close>

lemma in_range_steady: "in_range steady"
  by (simp add: in_range_def steady_def)

lemma in_range_peak: "in_range peak"
  by (simp add: in_range_def peak_def)

lemma steady_loop: "update_loop base_rates steady 0 Map.empty = Inr steady_table"
proof -
  have "\<And>i. i < 6 \<Longrightarrow> 1 + steady i \<noteq> 0" by (simp add: steady_def)
  from update_loop_base [of steady Map.empty, OF this] show ?thesis
    by (simp add: steady_def steady_table_def)
qed

lemma steady_refresh: "update_rates steady t new_manager = Inr (refreshed t)"
  by (simp add: update_rates_def new_manager_def steady_loop refreshed_def)

lemma cold_start:
  "5000 - last_updated new_manager > update_interval new_manager"
  by (simp add: new_manager_def)

lemma steady_first_call:
  "get_rate a b 5000 steady 5001 new_manager =
     Inr (case steady_table (key a b) of None \<Rightarrow> 1 | Some r \<Rightarrow> r, refreshed 5001)"
  by (simp add: get_rate_def update_rates_if_needed_def cold_start steady_refresh refreshed_def)

lemma refreshed_call:
  assumes "\<not> current_time - t > 3600"
  shows "get_rate a b current_time fluct t_end (refreshed t) =
           Inr (case steady_table (key a b) of None \<Rightarrow> 1 | Some r \<Rightarrow> r, refreshed t)"
  using assms by (simp add: get_rate_def update_rates_if_needed_def refreshed_def)

lemma steady_usd_eur: "steady_table (key ''USD'' ''EUR'') = Some 0.85"
  by (simp add: steady_table_def key_def)

lemma steady_eur_usd: "steady_table (key ''EUR'' ''USD'') = Some (1 / 0.85)"
  by (simp add: steady_table_def key_def)

lemma reachable_refreshed: "reachable (refreshed 5001)"
  by (rule reachable.call [OF reachable.init steady_first_call [of "''USD''" "''EUR''"]])

subsection \<open>A thread running alone does what the method does\<close>

lemma run_Nil: "run [] s = s"
  by (simp add: run_def)

lemma run_Cons: "run (e # es) s = run es (exec e s)"
  by (simp add: run_def)

lemma run_append: "run (xs @ ys) s = run ys (run xs s)"
  by (simp add: run_def)

lemma refresh_events_eq:
  "refresh_events tid fluct t_end =
     [(tid, 0, fluct 0), (tid, 0, 0), (tid, 0, fluct 1), (tid, 0, 0), (tid, 0, fluct 2), (tid, 0, 0),
      (tid, 0, fluct 3), (tid, 0, 0), (tid, 0, fluct 4), (tid, 0, 0), (tid, 0, fluct 5), (tid, 0, 0),
      (tid, t_end, 0), (tid, 0, 0)]"
  by (simp add: refresh_events_def base_rates_def upt_rec eval_nat_numeral)

lemma exec_Check:
  assumes "tid < length ths" "pc (ths ! tid) = Check"
  shows "exec (tid, clock, draw) \<lparr>shared = m, threads = ths\<rparr> =
         (if clock - last_updated m > update_interval m
          then \<lparr>shared = m\<lparr>printed := printed m + 1\<rparr>, threads = ths[tid := (ths ! tid)\<lparr>pc := next_iter 0\<rparr>]\<rparr>
          else \<lparr>shared = m, threads = ths[tid := (ths ! tid)\<lparr>pc := Lookup\<rparr>]\<rparr>)"
  using assms by simp

lemma exec_Fwd:
  assumes "tid < length ths" "pc (ths ! tid) = Fwd i" "i < length base_rates"
  shows "exec (tid, clock, draw) \<lparr>shared = m, threads = ths\<rparr> =
         \<lparr>shared = m\<lparr>rates := (rates m)(fst (base_rates ! i) \<mapsto> snd (base_rates ! i) * (1 + draw))\<rparr>,
          threads = ths[tid := (ths ! tid)\<lparr>pc := Rev i\<rparr>]\<rparr>"
  using assms by (simp add: case_prod_beta)

lemma exec_Rev:
  assumes "tid < length ths" "pc (ths ! tid) = Rev i" "i < length base_rates"
    and "reverse_pair (fst (base_rates ! i)) = Inr rp" "rates m (fst (base_rates ! i)) = Some r" "r \<noteq> 0"
  shows "exec (tid, clock, draw) \<lparr>shared = m, threads = ths\<rparr> =
         \<lparr>shared = m\<lparr>rates := (rates m)(rp \<mapsto> 1 / r)\<rparr>,
          threads = ths[tid := (ths ! tid)\<lparr>pc := next_iter (Suc i)\<rparr>]\<rparr>"
  using assms by (simp add: case_prod_beta)

lemma exec_Stamp:
  assumes "tid < length ths" "pc (ths ! tid) = Stamp"
  shows "exec (tid, clock, draw) \<lparr>shared = m, threads = ths\<rparr> =
         \<lparr>shared = m\<lparr>last_updated := clock\<rparr>, threads = ths[tid := (ths ! tid)\<lparr>pc := Lookup\<rparr>]\<rparr>"
  using assms by simp

lemma exec_Lookup:
  assumes "tid < length ths" "pc (ths ! tid) = Lookup"
  shows "exec (tid, clock, draw) \<lparr>shared = m, threads = ths\<rparr> =
         \<lparr>shared = m,
          threads = ths[tid := (ths ! tid)\<lparr>pc := Returned
            (case rates m (key (from_currency (ths ! tid)) (to_currency (ths ! tid))) of
               None \<Rightarrow> 1 | Some r \<Rightarrow> r)\<rparr>]\<rparr>"
  using assms by (simp add: Let_def)

text \<open>With no other thread on the object, the steps of one thread from \<open>Check\<close> to its
  return leave the object and the result that \<open>get_rate\<close> computes.\<close>

lemma solo_call_fresh:
  assumes "\<not> current_time - last_updated m > update_interval m"
  shows "run [(0, current_time, 0), (0, 0, 0)] \<lparr>shared = m, threads = [caller a b]\<rparr> =
         \<lparr>shared = m, threads = [(caller a b)\<lparr>pc := Returned
            (case rates m (key a b) of None \<Rightarrow> 1 | Some r \<Rightarrow> r)\<rparr>]\<rparr>"
  using assms by (simp add: run_Cons run_Nil caller_def)

lemma solo_call_refresh:
  assumes "current_time - last_updated m > update_interval m"
    and "get_rate a b current_time fluct t_end m = Inr (v, m')"
  shows "run ((0, current_time, 0) # refresh_events 0 fluct t_end)
           \<lparr>shared = m, threads = [caller a b]\<rparr> =
         \<lparr>shared = m', threads = [(caller a b)\<lparr>pc := Returned v\<rparr>]\<rparr>"
proof -
  from assms have u: "update_rates fluct t_end m = Inr m'"
    and v: "v = (case rates m' (key a b) of None \<Rightarrow> 1 | Some r \<Rightarrow> r)"
    by (simp_all add: get_rate_Inr update_rates_if_needed_def)
  from u obtain t' where t': "update_loop base_rates fluct 0 (rates m) = Inr t'"
    and m': "m' = m\<lparr>printed := printed m + 1, rates := t', last_updated := t_end\<rparr>"
    unfolding update_rates_Inr by blast
  have nz: "1 + fluct 0 \<noteq> 0" "1 + fluct 1 \<noteq> 0" "1 + fluct 2 \<noteq> 0"
           "1 + fluct 3 \<noteq> 0" "1 + fluct 4 \<noteq> 0" "1 + fluct 5 \<noteq> 0"
    using update_loop_Inr_nonzero [OF t'] by simp_all
  have nz': "\<And>i. i < 6 \<Longrightarrow> 1 + fluct i \<noteq> 0"
    using update_loop_Inr_nonzero [OF t'] .
  have t'_eq: "t' = (rates m)(
     ''USD_EUR'' \<mapsto> 0.85 * (1 + fluct 0), ''EUR_USD'' \<mapsto> 1 / (0.85 * (1 + fluct 0)),
     ''USD_GBP'' \<mapsto> 0.75 * (1 + fluct 1), ''GBP_USD'' \<mapsto> 1 / (0.75 * (1 + fluct 1)),
     ''USD_JPY'' \<mapsto> 110.0 * (1 + fluct 2), ''JPY_USD'' \<mapsto> 1 / (110.0 * (1 + fluct 2)),
     ''EUR_GBP'' \<mapsto> 0.88 * (1 + fluct 3), ''GBP_EUR'' \<mapsto> 1 / (0.88 * (1 + fluct 3)),
     ''EUR_JPY'' \<mapsto> 129.5 * (1 + fluct 4), ''JPY_EUR'' \<mapsto> 1 / (129.5 * (1 + fluct 4)),
     ''GBP_JPY'' \<mapsto> 146.7 * (1 + fluct 5), ''JPY_GBP'' \<mapsto> 1 / (146.7 * (1 + fluct 5)))"
    using update_loop_base [of fluct "rates m", OF nz'] t' by simp
  show ?thesis
    using assms(1) nz
    by (simp add: refresh_events_eq run_Cons run_Nil caller_def next_iter_def base_rates_def
        reverse_pair_base v m' t'_eq)
qed

subsection \<open>The instance slot\<close>

lemma get_instance_set:
  "instance_slot c = Some r \<Longrightarrow> get_instance c = (Some r, c)"
  by (simp add: get_instance_def)

lemma get_instances_set:
  "instance_slot c = Some r \<Longrightarrow> get_instances n c = (replicate n (Some r), c)"
  by (induction n) (simp_all add: get_instance_set)

lemma at_ok_noncrit:
  assumes "\<not> crit p" "at_ok c p" "instance_slot c = None"
  shows "at_ok c' p"
  using assms by (cases p) simp_all

lemma at_ok_slot_kept:
  assumes "at_ok c p" "instance_slot c = Some r" "instance_slot c' = Some r"
  shows "at_ok c' p"
  using assms by (cases p) simp_all

lemma step_case_0:
  assumes "inst_inv s" "tid < length (ithreads s)" "ithreads s ! tid = Outer"
  shows "inst_inv (iexec tid s)"
proof -
  from assms(1) have I1: "\<And>t. t < length (ithreads s) \<Longrightarrow> crit (ithreads s ! t) \<longleftrightarrow> lock s = Some t"
    and I2: "\<And>t. t < length (ithreads s) \<Longrightarrow> at_ok (klass s) (ithreads s ! t)"
    unfolding inst_inv_def by blast+
  have other: "\<not> crit (ithreads s ! t)" if "t < length (ithreads s)" "t \<noteq> tid" "crit (ithreads s ! tid)" for t
    using I1 [OF that(1)] I1 [OF assms(2)] that by simp
  have noassign: "ithreads s ! t \<noteq> Assign k" if "t < length (ithreads s)" "lock s = None" for t k
    using I1 [OF that(1)] that(2) by auto
  show ?thesis
    using assms I1 [OF assms(2)] I2 [OF assms(2)] unfolding inst_inv_def
    by (auto simp: iexec_def nth_list_update construct_def
          split: option.splits if_splits
          dest: noassign intro: at_ok_noncrit [OF other] at_ok_slot_kept)
qed

lemma step_case_1:
  assumes "inst_inv s" "tid < length (ithreads s)" "ithreads s ! tid = Acquire"
  shows "inst_inv (iexec tid s)"
proof -
  from assms(1) have I1: "\<And>t. t < length (ithreads s) \<Longrightarrow> crit (ithreads s ! t) \<longleftrightarrow> lock s = Some t"
    and I2: "\<And>t. t < length (ithreads s) \<Longrightarrow> at_ok (klass s) (ithreads s ! t)"
    unfolding inst_inv_def by blast+
  have other: "\<not> crit (ithreads s ! t)" if "t < length (ithreads s)" "t \<noteq> tid" "crit (ithreads s ! tid)" for t
    using I1 [OF that(1)] I1 [OF assms(2)] that by simp
  have noassign: "ithreads s ! t \<noteq> Assign k" if "t < length (ithreads s)" "lock s = None" for t k
    using I1 [OF that(1)] that(2) by auto
  show ?thesis
    using assms I1 [OF assms(2)] I2 [OF assms(2)] unfolding inst_inv_def
    by (auto simp: iexec_def nth_list_update construct_def
          split: option.splits if_splits
          dest: noassign intro: at_ok_noncrit [OF other] at_ok_slot_kept)
qed

lemma step_case_2:
  assumes "inst_inv s" "tid < length (ithreads s)" "ithreads s ! tid = Inner"
  shows "inst_inv (iexec tid s)"
proof -
  from assms(1) have I1: "\<And>t. t < length (ithreads s) \<Longrightarrow> crit (ithreads s ! t) \<longleftrightarrow> lock s = Some t"
    and I2: "\<And>t. t < length (ithreads s) \<Longrightarrow> at_ok (klass s) (ithreads s ! t)"
    unfolding inst_inv_def by blast+
  have other: "\<not> crit (ithreads s ! t)" if "t < length (ithreads s)" "t \<noteq> tid" "crit (ithreads s ! tid)" for t
    using I1 [OF that(1)] I1 [OF assms(2)] that by simp
  have noassign: "ithreads s ! t \<noteq> Assign k" if "t < length (ithreads s)" "lock s = None" for t k
    using I1 [OF that(1)] that(2) by auto
  show ?thesis
    using assms I1 [OF assms(2)] I2 [OF assms(2)] unfolding inst_inv_def
    by (auto simp: iexec_def nth_list_update construct_def
          split: option.splits if_splits
          dest: noassign intro: at_ok_noncrit [OF other] at_ok_slot_kept)
qed

lemma step_case_3:
  assumes "inst_inv s" "tid < length (ithreads s)" "ithreads s ! tid = Construct"
  shows "inst_inv (iexec tid s)"
proof -
  from assms(1) have I1: "\<And>t. t < length (ithreads s) \<Longrightarrow> crit (ithreads s ! t) \<longleftrightarrow> lock s = Some t"
    and I2: "\<And>t. t < length (ithreads s) \<Longrightarrow> at_ok (klass s) (ithreads s ! t)"
    unfolding inst_inv_def by blast+
  have other: "\<not> crit (ithreads s ! t)" if "t < length (ithreads s)" "t \<noteq> tid" "crit (ithreads s ! tid)" for t
    using I1 [OF that(1)] I1 [OF assms(2)] that by simp
  have noassign: "ithreads s ! t \<noteq> Assign k" if "t < length (ithreads s)" "lock s = None" for t k
    using I1 [OF that(1)] that(2) by auto
  show ?thesis
    using assms I1 [OF assms(2)] I2 [OF assms(2)] unfolding inst_inv_def
    by (auto simp: iexec_def nth_list_update construct_def
          split: option.splits if_splits
          dest: noassign intro: at_ok_noncrit [OF other] at_ok_slot_kept)
qed

lemma step_case_4:
  assumes "inst_inv s" "tid < length (ithreads s)" "ithreads s ! tid = (Assign r)"
  shows "inst_inv (iexec tid s)"
proof -
  from assms(1) have I1: "\<And>t. t < length (ithreads s) \<Longrightarrow> crit (ithreads s ! t) \<longleftrightarrow> lock s = Some t"
    and I2: "\<And>t. t < length (ithreads s) \<Longrightarrow> at_ok (klass s) (ithreads s ! t)"
    unfolding inst_inv_def by blast+
  have other: "\<not> crit (ithreads s ! t)" if "t < length (ithreads s)" "t \<noteq> tid" "crit (ithreads s ! tid)" for t
    using I1 [OF that(1)] I1 [OF assms(2)] that by simp
  have noassign: "ithreads s ! t \<noteq> Assign k" if "t < length (ithreads s)" "lock s = None" for t k
    using I1 [OF that(1)] that(2) by auto
  show ?thesis
    using assms I1 [OF assms(2)] I2 [OF assms(2)] unfolding inst_inv_def
    by (auto simp: iexec_def nth_list_update construct_def
          split: option.splits if_splits
          dest: noassign intro: at_ok_noncrit [OF other] at_ok_slot_kept)
qed

lemma step_case_5:
  assumes "inst_inv s" "tid < length (ithreads s)" "ithreads s ! tid = Release"
  shows "inst_inv (iexec tid s)"
proof -
  from assms(1) have I1: "\<And>t. t < length (ithreads s) \<Longrightarrow> crit (ithreads s ! t) \<longleftrightarrow> lock s = Some t"
    and I2: "\<And>t. t < length (ithreads s) \<Longrightarrow> at_ok (klass s) (ithreads s ! t)"
    unfolding inst_inv_def by blast+
  have other: "\<not> crit (ithreads s ! t)" if "t < length (ithreads s)" "t \<noteq> tid" "crit (ithreads s ! tid)" for t
    using I1 [OF that(1)] I1 [OF assms(2)] that by simp
  have noassign: "ithreads s ! t \<noteq> Assign k" if "t < length (ithreads s)" "lock s = None" for t k
    using I1 [OF that(1)] that(2) by auto
  show ?thesis
    using assms I1 [OF assms(2)] I2 [OF assms(2)] unfolding inst_inv_def
    by (auto simp: iexec_def nth_list_update construct_def
          split: option.splits if_splits
          dest: noassign intro: at_ok_noncrit [OF other] at_ok_slot_kept)
qed

lemma step_case_6:
  assumes "inst_inv s" "tid < length (ithreads s)" "ithreads s ! tid = Return"
  shows "inst_inv (iexec tid s)"
proof -
  from assms(1) have I1: "\<And>t. t < length (ithreads s) \<Longrightarrow> crit (ithreads s ! t) \<longleftrightarrow> lock s = Some t"
    and I2: "\<And>t. t < length (ithreads s) \<Longrightarrow> at_ok (klass s) (ithreads s ! t)"
    unfolding inst_inv_def by blast+
  have other: "\<not> crit (ithreads s ! t)" if "t < length (ithreads s)" "t \<noteq> tid" "crit (ithreads s ! tid)" for t
    using I1 [OF that(1)] I1 [OF assms(2)] that by simp
  have noassign: "ithreads s ! t \<noteq> Assign k" if "t < length (ithreads s)" "lock s = None" for t k
    using I1 [OF that(1)] that(2) by auto
  show ?thesis
    using assms I1 [OF assms(2)] I2 [OF assms(2)] unfolding inst_inv_def
    by (auto simp: iexec_def nth_list_update construct_def
          split: option.splits if_splits
          dest: noassign intro: at_ok_noncrit [OF other] at_ok_slot_kept)
qed

lemma step_case_7:
  assumes "inst_inv s" "tid < length (ithreads s)" "ithreads s ! tid = (Got v)"
  shows "inst_inv (iexec tid s)"
proof -
  from assms(1) have I1: "\<And>t. t < length (ithreads s) \<Longrightarrow> crit (ithreads s ! t) \<longleftrightarrow> lock s = Some t"
    and I2: "\<And>t. t < length (ithreads s) \<Longrightarrow> at_ok (klass s) (ithreads s ! t)"
    unfolding inst_inv_def by blast+
  have other: "\<not> crit (ithreads s ! t)" if "t < length (ithreads s)" "t \<noteq> tid" "crit (ithreads s ! tid)" for t
    using I1 [OF that(1)] I1 [OF assms(2)] that by simp
  have noassign: "ithreads s ! t \<noteq> Assign k" if "t < length (ithreads s)" "lock s = None" for t k
    using I1 [OF that(1)] that(2) by auto
  show ?thesis
    using assms I1 [OF assms(2)] I2 [OF assms(2)] unfolding inst_inv_def
    by (auto simp: iexec_def nth_list_update construct_def
          split: option.splits if_splits
          dest: noassign intro: at_ok_noncrit [OF other] at_ok_slot_kept)
qed

lemma inst_inv_start: "inst_inv (istart n)"
  by (simp add: inst_inv_def istart_def cls_init_def)

lemma inst_inv_step:
  assumes "inst_inv s"
  shows "inst_inv (iexec tid s)"
proof (cases "tid < length (ithreads s)")
  case False
  with assms show ?thesis by (simp add: iexec_def)
next
  case True
  show ?thesis
  proof (cases "ithreads s ! tid")
    case Outer
    from step_case_0 [OF assms True Outer] show ?thesis .
  next
    case Acquire
    from step_case_1 [OF assms True Acquire] show ?thesis .
  next
    case Inner
    from step_case_2 [OF assms True Inner] show ?thesis .
  next
    case Construct
    from step_case_3 [OF assms True Construct] show ?thesis .
  next
    case (Assign r)
    from step_case_4 [OF assms True Assign] show ?thesis .
  next
    case Release
    from step_case_5 [OF assms True Release] show ?thesis .
  next
    case Return
    from step_case_6 [OF assms True Return] show ?thesis .
  next
    case (Got v)
    from step_case_7 [OF assms True Got] show ?thesis .
  qed
qed

lemma inst_inv_run: "inst_inv s \<Longrightarrow> inst_inv (irun sched s)"
  unfolding irun_def
  by (induction sched arbitrary: s) (simp_all add: inst_inv_step)

lemma length_iexec: "length (ithreads (iexec tid s)) = length (ithreads s)"
  by (simp add: iexec_def case_prod_beta)

lemma length_irun: "length (ithreads (irun sched s)) = length (ithreads s)"
  unfolding irun_def
  by (induction sched arbitrary: s) (simp_all add: length_iexec)

lemma inst_inv_objects: "inst_inv s \<Longrightarrow> length (objects (klass s)) \<le> 1"
  by (auto simp: inst_inv_def split: option.splits)

lemma inst_inv_got:
  assumes "inst_inv s" "tid < length (ithreads s)" "ithreads s ! tid = Got v"
  shows "v = Some 0"
proof -
  from assms(1,2) have "at_ok (klass s) (ithreads s ! tid)" unfolding inst_inv_def by blast
  with assms(3) show ?thesis by simp
qed

lemma irun_Nil: "irun [] s = s"
  by (simp add: irun_def)

lemma irun_Cons: "irun (t # ts) s = irun ts (iexec t s)"
  by (simp add: irun_def)

text \<open>
  Claim C1 (singleton identity). In every sequence of calls of \<^verbatim>\<open>get_instance\<close> all
  returned references are identical. For calls made one after the other from the freshly
  loaded class: the first call constructs the object and stores it in the slot, no later
  call constructs or stores anything, and all \<open>n + 1\<close> calls return that one reference. For
  calls by \<open>k\<close> threads whose steps are interleaved by any schedule: every call that has
  returned has returned the same reference, and at most one object was ever constructed.
\<close>

theorem singleton_identity:
  "get_instances (Suc n) cls_init =
     (replicate (Suc n) (Some 0), \<lparr>instance_slot = Some 0, objects = [new_manager]\<rparr>) \<and>
   (\<forall>tid v. tid < k \<longrightarrow> ithreads (irun sched (istart k)) ! tid = Got v \<longrightarrow> v = Some 0) \<and>
   length (objects (klass (irun sched (istart k)))) \<le> 1"
proof -
  have "get_instance cls_init = (Some 0, \<lparr>instance_slot = Some 0, objects = [new_manager]\<rparr>)"
    by (simp add: get_instance_def cls_init_def construct_def)
  then have a: "get_instances (Suc n) cls_init =
     (replicate (Suc n) (Some 0), \<lparr>instance_slot = Some 0, objects = [new_manager]\<rparr>)"
    by (simp add: get_instances_set)
  have i: "inst_inv (irun sched (istart k))"
    by (rule inst_inv_run [OF inst_inv_start])
  have l: "length (ithreads (irun sched (istart k))) = k"
    by (simp add: length_irun istart_def)
  from a i l show ?thesis
    by (auto dest: inst_inv_got inst_inv_objects)
qed

theorem singleton_identity_witness:
  "get_instances 3 cls_init =
     ([Some 0, Some 0, Some 0], \<lparr>instance_slot = Some 0, objects = [new_manager]\<rparr>) \<and>
   irun [0, 1, 0, 1, 0, 0, 0, 0, 0, 1, 1, 1, 1] (istart 2) =
     \<lparr>klass = \<lparr>instance_slot = Some 0, objects = [new_manager]\<rparr>, lock = None,
      ithreads = [Got (Some 0), Got (Some 0)]\<rparr>"
proof -
  have r: "irun [0, 1, 0, 1, 0, 0, 0, 0, 0, 1, 1, 1, 1] (istart 2) =
     \<lparr>klass = \<lparr>instance_slot = Some 0, objects = [new_manager]\<rparr>, lock = None,
      ithreads = [Got (Some 0), Got (Some 0)]\<rparr>"
    by (simp add: irun_Cons irun_Nil iexec_def istart_def cls_init_def construct_def
        numeral_2_eq_2)
  from singleton_identity [of 2 2 "[0, 1, 0, 1, 0, 0, 0, 0, 0, 1, 1, 1, 1]"] r
  show ?thesis by (simp add: numeral_3_eq_3)
qed

subsection \<open>How often a refresh happens\<close>

text \<open>
  Claim C2, as stated: the refresh is guarded by double-checked locking, so that any number
  of callers that find the table stale at the same time cause exactly one refresh. The
  code takes no lock in \<^verbatim>\<open>_update_rates_if_needed\<close> and checks once. In the run below two
  threads call \<^verbatim>\<open>get_rate\<close> on a new object; both make the check of line 32 before either
  has reached line 54, both find the table stale, and both refresh: the line of line 36 is
  printed twice.
\<close>

theorem concurrent_double_refresh:
  "run ([(0, 5000, 0), (1, 5000, 0)] @ refresh_events 0 steady 5001 @ refresh_events 1 steady 5002)
     \<lparr>shared = new_manager, threads = [caller ''USD'' ''EUR'', caller ''USD'' ''EUR'']\<rparr> =
   \<lparr>shared = \<lparr>rates = steady_table, last_updated = 5002, update_interval = 3600, printed = 2\<rparr>,
    threads = [\<lparr>pc = Returned 0.85, from_currency = ''USD'', to_currency = ''EUR''\<rparr>,
               \<lparr>pc = Returned 0.85, from_currency = ''USD'', to_currency = ''EUR''\<rparr>]\<rparr>"
  by (simp add: refresh_events_eq run_Cons run_Nil caller_def new_manager_def steady_def
      next_iter_def base_rates_def reverse_pair_base key_def steady_table_def)

lemma fresh_calls_unchanged:
  assumes "\<forall>(a, b, ct, fl, te) \<in> set cs. ct - last_updated m \<le> update_interval m"
  shows "\<exists>vs. get_rates cs m = Inr (vs, m) \<and> length vs = length cs"
  using assms
proof (induction cs)
  case Nil
  show ?case by simp
next
  case (Cons c cs)
  obtain a b ct fl te where c: "c = (a, b, ct, fl, te)" by (cases c)
  from Cons.prems have "\<not> ct - last_updated m > update_interval m" by (simp add: c)
  from fresh_call [OF this] Cons show ?case by (auto simp: c)
qed

text \<open>
  Claim C2, amended. The staleness check is made once, with no lock and no second check, and
  a caller refreshes exactly when its own check finds the table stale. For calls that do
  not overlap this gives one refresh per stale window: a call that finds the table stale
  refreshes once, and however many calls follow it, each reading the clock no later than
  the interval after the new timestamp, none of them refreshes; all of them return.
\<close>

theorem serial_calls_refresh_once:
  assumes "reachable m" and "in_range fluct"
    and "current_time - last_updated m > update_interval m"
    and "\<forall>(a', b', ct', fl', te') \<in> set cs. ct' - t_end \<le> 3600"
  shows "\<exists>v vs m'. get_rates ((a, b, current_time, fluct, t_end) # cs) m = Inr (v # vs, m') \<and>
           length vs = length cs \<and> printed m' = printed m + 1 \<and> last_updated m' = t_end"
proof -
  from update_rates_total [OF assms(2)] obtain m1 where m1: "update_rates fluct t_end m = Inr m1"
    by blast
  with assms(3) have g: "get_rate a b current_time fluct t_end m =
      Inr (case rates m1 (key a b) of None \<Rightarrow> 1 | Some r \<Rightarrow> r, m1)"
    by (simp add: get_rate_def update_rates_if_needed_def)
  from m1 have p: "printed m1 = printed m + 1" "last_updated m1 = t_end"
    "update_interval m1 = update_interval m"
    by (auto simp: update_rates_Inr)
  from reachable_inv [OF assms(1)] p have "update_interval m1 = 3600" by simp
  with assms(4) p have "\<forall>(a, b, ct, fl, te) \<in> set cs. ct - last_updated m1 \<le> update_interval m1"
    by simp
  from fresh_calls_unchanged [OF this] obtain vs
    where "get_rates cs m1 = Inr (vs, m1)" "length vs = length cs" by blast
  with g p show ?thesis by simp
qed

theorem serial_calls_refresh_once_witness:
  "reachable new_manager \<and> in_range steady \<and>
   5000 - last_updated new_manager > update_interval new_manager \<and>
   (5002 :: real) - 5001 \<le> 3600 \<and> (8601 :: real) - 5001 \<le> 3600 \<and>
   get_rates [(''USD'', ''EUR'', 5000, steady, 5001), (''EUR'', ''GBP'', 5002, steady, 5003),
              (''GBP'', ''JPY'', 8601, steady, 8602)] new_manager =
     Inr ([0.85, 0.88, 146.7], refreshed 5001) \<and>
   printed (refreshed 5001) = printed new_manager + 1 \<and> last_updated (refreshed 5001) = 5001"
proof -
  have h: "\<forall>(a', b', ct', fl', te') \<in>
      set [(''EUR'', ''GBP'', 5002, steady, 5003), (''GBP'', ''JPY'', 8601, steady, 8602)].
        ct' - 5001 \<le> (3600 :: real)"
    by simp
  have g: "steady_table (key ''USD'' ''EUR'') = Some 0.85"
    "steady_table (key ''EUR'' ''GBP'') = Some 0.88"
    "steady_table (key ''GBP'' ''JPY'') = Some 146.7"
    by (simp_all add: steady_table_def key_def)
  show ?thesis
    using serial_calls_refresh_once [OF reachable.init in_range_steady cold_start h,
        of "''USD''" "''EUR''"]
    by (simp add: reachable.init in_range_steady cold_start steady_first_call refreshed_call g)
qed

subsection \<open>What a reader can see of the table\<close>

text \<open>
  Claim C3, as stated: the new table is built aside and swapped in as one unit, so that a
  reader never sees a pair without its reciprocal or entries of two generations. The code
  writes into the live dictionary one key at a time. In the first run below thread 0
  completes a first refresh; threads 1 and 2 pass their staleness check while the table is
  fresh; thread 3 finds it stale and has written only \<^verbatim>\<open>USD_EUR\<close> of the second
  generation when threads 1 and 2 read: they return \<^verbatim>\<open>EUR_USD\<close> of the first generation
  and \<^verbatim>\<open>USD_EUR\<close> of the second, whose product is 1.02. In the second run the table of a
  new object holds \<^verbatim>\<open>USD_EUR\<close> and no \<^verbatim>\<open>EUR_USD\<close> after the first write.
\<close>

theorem torn_table:
  "run ([(0, 5000, 0)] @ refresh_events 0 steady 5001 @
        [(1, 8601, 0), (2, 8601, 0), (3, 8602, 0), (3, 0, 0.02), (1, 0, 0), (2, 0, 0)])
     \<lparr>shared = new_manager,
      threads = [caller ''USD'' ''EUR'', caller ''EUR'' ''USD'', caller ''USD'' ''EUR'',
                 caller ''GBP'' ''JPY'']\<rparr> =
   \<lparr>shared = \<lparr>rates = steady_table(''USD_EUR'' \<mapsto> 0.867), last_updated = 5001,
               update_interval = 3600, printed = 2\<rparr>,
    threads = [\<lparr>pc = Returned 0.85, from_currency = ''USD'', to_currency = ''EUR''\<rparr>,
               \<lparr>pc = Returned (1 / 0.85), from_currency = ''EUR'', to_currency = ''USD''\<rparr>,
               \<lparr>pc = Returned 0.867, from_currency = ''USD'', to_currency = ''EUR''\<rparr>,
               \<lparr>pc = Rev 0, from_currency = ''GBP'', to_currency = ''JPY''\<rparr>]\<rparr> \<and>
   steady_table ''EUR_USD'' = Some (1 / 0.85) \<and> (0.867 :: real) * (1 / 0.85) = 1.02 \<and>
   run [(0, 5000, 0), (0, 0, 0)] \<lparr>shared = new_manager, threads = [caller ''USD'' ''EUR'']\<rparr> =
   \<lparr>shared = \<lparr>rates = [''USD_EUR'' \<mapsto> 0.85], last_updated = 0, update_interval = 3600,
               printed = 1\<rparr>,
    threads = [\<lparr>pc = Rev 0, from_currency = ''USD'', to_currency = ''EUR''\<rparr>]\<rparr>"
  by (simp add: refresh_events_eq run_Cons run_Nil caller_def new_manager_def steady_def
      next_iter_def base_rates_def reverse_pair_base key_def steady_table_def)

text \<open>
  Claim C3, amended. A refresh writes the live table in place, entry by entry. When it has
  run to its end with no other call in between, the table is a snapshot of one generation:
  it is the table that the same draws build from the empty table, so nothing of the
  previous contents remains; and \<^verbatim>\<open>_last_updated\<close> is the clock reading taken at line 54,
  after the last write.
\<close>

theorem refresh_snapshot:
  assumes "reachable m" and "in_range fluct"
  shows "\<exists>m' m0. update_rates fluct t_end m = Inr m' \<and>
           update_rates fluct t_end new_manager = Inr m0 \<and>
           rates m' = rates m0 \<and> last_updated m' = t_end"
proof -
  have nz: "\<And>i. i < 6 \<Longrightarrow> 1 + fluct i \<noteq> 0" using in_range_nonzero [OF assms(2)] .
  from reachable_inv [OF assms(1)] have d: "dom (rates m) \<subseteq> set all_keys"
    by (simp add: consistent_dom)
  obtain t' where t': "update_loop base_rates fluct 0 (rates m) = Inr t'"
    using update_loop_total [OF assms(2)] by blast
  obtain t0 where t0: "update_loop base_rates fluct 0 Map.empty = Inr t0"
    using update_loop_total [OF assms(2)] by blast
  note e = update_loop_entries [OF t']
  note e0 = update_loop_entries [OF t0]
  have "t' k = t0 k" for k
  proof (cases "k \<in> set all_keys")
    case True
    then show ?thesis
      by (cases rule: all_keys_cases) (simp_all only: e(1-12) e0(1-12))
  next
    case False
    with d have "rates m k = None" by blast
    with False e(13) e0(13) show ?thesis by simp
  qed
  then have "t' = t0" by (rule ext)
  with t' t0 show ?thesis
    by (simp add: update_rates_def new_manager_def)
qed

theorem refresh_snapshot_witness:
  "reachable (refreshed 5001) \<and> in_range peak \<and>
   (\<exists>m' m0. update_rates peak 9000 (refreshed 5001) = Inr m' \<and>
      update_rates peak 9000 new_manager = Inr m0 \<and>
      rates m' = rates m0 \<and> last_updated m' = 9000)"
  using refresh_snapshot [OF reachable_refreshed in_range_peak, of 9000]
  by (simp add: reachable_refreshed in_range_peak)

subsection \<open>Reciprocal rates\<close>

text \<open>
  Claim C4, as stated: after every refresh, every stored key has its reverse stored with
  the reciprocal rate. The code takes no lock between line 25 and line 54, so two refreshes
  can overlap. In the run below both threads find the table of a new object stale; thread 1
  writes \<^verbatim>\<open>USD_EUR\<close> and \<^verbatim>\<open>EUR_USD\<close>, thread 0 then runs lines 49 and 50 once with the draw
  0.02, and thread 1 runs the rest of its refresh and returns. After this refresh the table
  holds \<^verbatim>\<open>USD_EUR\<close> at 0.867 and \<^verbatim>\<open>EUR_USD\<close> at 1 / 0.85, whose product is 1.02.
\<close>

theorem overlapped_refresh_table:
  "run [(0, 5000, 0), (1, 5000, 0), (1, 0, 0), (1, 0, 0), (0, 0, 0.02),
        (1, 0, 0), (1, 0, 0), (1, 0, 0), (1, 0, 0), (1, 0, 0),
        (1, 0, 0), (1, 0, 0), (1, 0, 0), (1, 0, 0), (1, 0, 0),
        (1, 5001, 0), (1, 0, 0)]
     \<lparr>shared = new_manager, threads = [caller ''USD'' ''EUR'', caller ''USD'' ''EUR'']\<rparr> =
   \<lparr>shared = \<lparr>rates = steady_table(''USD_EUR'' \<mapsto> 0.867), last_updated = 5001,
               update_interval = 3600, printed = 2\<rparr>,
    threads = [\<lparr>pc = Rev 0, from_currency = ''USD'', to_currency = ''EUR''\<rparr>,
               \<lparr>pc = Returned 0.867, from_currency = ''USD'', to_currency = ''EUR''\<rparr>]\<rparr> \<and>
   reverse_pair ''USD_EUR'' = Inr ''EUR_USD'' \<and>
   (steady_table(''USD_EUR'' \<mapsto> 0.867)) ''USD_EUR'' = Some 0.867 \<and>
   (steady_table(''USD_EUR'' \<mapsto> 0.867)) ''EUR_USD'' = Some (1 / 0.85) \<and>
   (0.867 :: real) * (1 / 0.85) = 1.02"
  by (simp add: run_Cons run_Nil caller_def new_manager_def
      next_iter_def base_rates_def reverse_pair_base key_def steady_table_def)
     (simp add: fun_eq_iff)

text \<open>
  Claim C4, amended. After every refresh that runs from its first line to its last with no
  other call's refresh in between (as when calls are made one after the other), the
  reciprocal rates are consistent: with draws that \<^verbatim>\<open>random.uniform(-0.02, 0.02)\<close> can
  return the refresh comes back; afterwards exactly the twelve keys are stored, and for
  every stored key with rate \<open>x\<close> the reverse key is stored with rate \<open>1 / x\<close>, so that the
  product of the two rates is 1 (in exact arithmetic).
\<close>

theorem refresh_reciprocal:
  assumes "reachable m" and "in_range fluct"
  shows "\<exists>m'. update_rates fluct t_end m = Inr m' \<and>
           dom (rates m') = set all_keys \<and>
           (\<forall>k x. rates m' k = Some x \<longrightarrow>
              (\<exists>q y. reverse_pair k = Inr q \<and> rates m' q = Some y \<and> y = 1 / x \<and> x * y = 1))"
proof -
  from update_rates_total [OF assms(2)] obtain m' where m': "update_rates fluct t_end m = Inr m'"
    by blast
  then obtain t' where t': "update_loop base_rates fluct 0 (rates m) = Inr t'"
    and eq: "m' = m\<lparr>printed := printed m + 1, rates := t', last_updated := t_end\<rparr>"
    unfolding update_rates_Inr by blast
  from reachable_inv [OF assms(1)] have "dom (rates m) \<subseteq> set all_keys"
    by (simp add: consistent_dom)
  from consistent_refresh [OF this t'] have c: "consistent t'" .
  note e = update_loop_entries [OF t']
  have "set all_keys \<subseteq> dom t'"
    unfolding all_keys_eq using e(1-12) by (simp add: domIff)
  with c have d: "dom t' = set all_keys"
    by (auto simp: consistent_def)
  have r: "\<exists>q y. reverse_pair k = Inr q \<and> t' q = Some y \<and> y = 1 / x \<and> x * y = 1"
    if "t' k = Some x" for k x
  proof -
    from c that have "x \<noteq> 0" and "\<exists>q. reverse_pair k = Inr q \<and> t' q = Some (1 / x)"
      unfolding consistent_def by blast+
    then show ?thesis by simp
  qed
  from m' d r show ?thesis by (auto simp: eq)
qed

theorem refresh_reciprocal_witness:
  "reachable new_manager \<and> in_range steady \<and>
   update_rates steady 5001 new_manager = Inr (refreshed 5001) \<and>
   rates (refreshed 5001) ''USD_EUR'' = Some 0.85 \<and>
   reverse_pair ''USD_EUR'' = Inr ''EUR_USD'' \<and>
   rates (refreshed 5001) ''EUR_USD'' = Some (1 / 0.85) \<and>
   (0.85 :: real) * (1 / 0.85) = 1"
proof -
  from refresh_reciprocal [OF reachable.init in_range_steady, of 5001]
  obtain m' where u: "update_rates steady 5001 new_manager = Inr m'"
    and r: "\<forall>k x. rates m' k = Some x \<longrightarrow>
              (\<exists>q y. reverse_pair k = Inr q \<and> rates m' q = Some y \<and> y = 1 / x \<and> x * y = 1)"
    by blast
  from u have m': "m' = refreshed 5001" by (simp add: steady_refresh)
  have s: "rates (refreshed 5001) ''USD_EUR'' = Some 0.85"
    by (simp add: refreshed_def steady_table_def)
  from r [unfolded m', rule_format, OF s]
  have "rates (refreshed 5001) ''EUR_USD'' = Some (1 / 0.85) \<and> (0.85 :: real) * (1 / 0.85) = 1"
    by (auto simp: reverse_pair_base)
  with s show ?thesis
    by (simp add: reachable.init in_range_steady steady_refresh reverse_pair_base)
qed

subsection \<open>The refreshed rates stay near the base rates\<close>

lemma within_two_percent:
  fixes rate f :: real
  assumes "0 \<le> rate" "- 0.02 \<le> f" "f \<le> 0.02"
  shows "\<bar>rate * (1 + f) - rate\<bar> \<le> 0.02 * rate"
proof -
  have 1: "rate * (1 + f) - rate = rate * f" by (simp add: algebra_simps)
  have 2: "\<bar>rate * f\<bar> = rate * \<bar>f\<bar>" using assms(1) by (simp add: abs_mult)
  have "\<bar>f\<bar> \<le> 0.02" using assms(2,3) by (simp add: abs_le_iff)
  then have "rate * \<bar>f\<bar> \<le> rate * 0.02" using assms(1) by (rule mult_left_mono)
  then have "\<bar>rate * (1 + f) - rate\<bar> \<le> rate * 0.02" by (simp only: 1 2)
  then show ?thesis by (simp only: mult.commute)
qed

text \<open>
  Claim C5 (refresh rate bound). For draws between -0.02 and 0.02 a refresh comes back, and
  for every item of \<open>base_rates\<close>, the \<open>i\<close>-th say, the rate stored under its key is the base
  rate times \<open>1 + fluct i\<close>, which differs from the base rate by at most 2 percent of it.
\<close>

theorem refresh_rate_bound:
  assumes "in_range fluct"
  shows "\<exists>m'. update_rates fluct t_end m = Inr m' \<and>
           (\<forall>i < length base_rates.
              rates m' (fst (base_rates ! i)) = Some (snd (base_rates ! i) * (1 + fluct i)) \<and>
              \<bar>snd (base_rates ! i) * (1 + fluct i) - snd (base_rates ! i)\<bar>
                \<le> 0.02 * snd (base_rates ! i))"
proof -
  from update_rates_total [OF assms] obtain m' where m': "update_rates fluct t_end m = Inr m'"
    by blast
  then obtain t' where t': "update_loop base_rates fluct 0 (rates m) = Inr t'"
    and eq: "rates m' = t'"
    unfolding update_rates_Inr by auto
  note e = update_loop_entries [OF t']
  have b: "\<bar>snd (base_rates ! i) * (1 + fluct i) - snd (base_rates ! i)\<bar> \<le> 0.02 * snd (base_rates ! i)"
    if "i < length base_rates" for i
  proof (rule within_two_percent)
    from base_rates_index [OF that] show "0 \<le> snd (base_rates ! i)"
      by (elim disjE) (simp_all add: base_rates_nth)
    from assms that show "- 0.02 \<le> fluct i" "fluct i \<le> 0.02"
      by (simp_all add: in_range_def)
  qed
  have s: "t' (fst (base_rates ! i)) = Some (snd (base_rates ! i) * (1 + fluct i))"
    if "i < length base_rates" for i
  proof -
    from base_rates_index [OF that] show ?thesis
      using e(1) e(3) e(5) e(7) e(9) e(11) by (elim disjE) (simp_all add: base_rates_nth)
  qed
  from m' b s show ?thesis by (auto simp: eq)
qed

theorem refresh_rate_bound_witness:
  "in_range peak \<and>
   (\<exists>m'. update_rates peak 5001 new_manager = Inr m' \<and>
      rates m' ''USD_EUR'' = Some (0.85 * (1 + 0.02)) \<and>
      \<bar>0.85 * (1 + 0.02) - 0.85\<bar> \<le> (0.02 * 0.85 :: real))"
proof -
  from refresh_rate_bound [OF in_range_peak, of 5001 new_manager]
  obtain m' where u: "update_rates peak 5001 new_manager = Inr m'"
    and b: "\<forall>i < length base_rates.
              rates m' (fst (base_rates ! i)) = Some (snd (base_rates ! i) * (1 + peak i)) \<and>
              \<bar>snd (base_rates ! i) * (1 + peak i) - snd (base_rates ! i)\<bar>
                \<le> 0.02 * snd (base_rates ! i)"
    by blast
  have "0 < length base_rates" by (simp add: base_rates_def)
  from b [rule_format, OF this] u show ?thesis
    by (auto simp: in_range_peak base_rates_nth peak_def)
qed

subsection \<open>The staleness bound\<close>

text \<open>
  Claim C6 (staleness bound). When a call of \<^verbatim>\<open>get_rate\<close> has returned, the last clock
  reading it took is at most the interval after \<^verbatim>\<open>_last_updated\<close>: either its check found
  the table fresh, nothing was changed and the reading of line 31 is within the interval; or
  a refresh ran, the timestamp is the reading of line 54, and the distance is 0.
\<close>

theorem staleness_bound:
  assumes "reachable m" and "get_rate a b current_time fluct t_end m = Inr (v, m')"
  shows "(\<not> current_time - last_updated m > update_interval m \<and> m' = m \<and>
            current_time - last_updated m' \<le> update_interval m') \<or>
         (current_time - last_updated m > update_interval m \<and> printed m' = printed m + 1 \<and>
            last_updated m' = t_end \<and> t_end - last_updated m' \<le> update_interval m')"
proof -
  from reachable_inv [OF assms(1)] have i: "update_interval m = 3600" by simp
  from assms(2) have u: "update_rates_if_needed current_time fluct t_end m = Inr m'"
    by (simp add: get_rate_Inr)
  show ?thesis
  proof (cases "current_time - last_updated m > update_interval m")
    case False
    with u show ?thesis by (simp add: update_rates_if_needed_def)
  next
    case True
    with u have "update_rates fluct t_end m = Inr m'" by (simp add: update_rates_if_needed_def)
    with True i show ?thesis by (auto simp: update_rates_Inr)
  qed
qed

theorem staleness_bound_witness:
  "reachable new_manager \<and>
   get_rate ''USD'' ''EUR'' 5000 steady 5001 new_manager = Inr (0.85, refreshed 5001) \<and>
   5000 - last_updated new_manager > update_interval new_manager \<and>
   printed (refreshed 5001) = printed new_manager + 1 \<and>
   last_updated (refreshed 5001) = 5001 \<and>
   5001 - last_updated (refreshed 5001) \<le> update_interval (refreshed 5001)"
proof -
  have g: "get_rate ''USD'' ''EUR'' 5000 steady 5001 new_manager = Inr (0.85, refreshed 5001)"
    by (simp add: steady_first_call steady_usd_eur)
  from staleness_bound [OF reachable.init g] show ?thesis
    using g by (simp add: reachable.init cold_start)
qed

subsection \<open>Equal codes\<close>

text \<open>
  Claim C7, as stated: \<^verbatim>\<open>get_rate(X, X)\<close> returns 1.0 without consulting the table and so
  without a refresh. The code has no branch for equal codes: the first call on a new object
  with equal codes refreshes the table (one line printed, twelve entries stored) before it
  returns 1.
\<close>

theorem same_code_refreshes:
  "get_rate ''USD'' ''USD'' 5000 steady 5001 new_manager = Inr (1, refreshed 5001) \<and>
   printed new_manager = 0 \<and> rates new_manager ''USD_EUR'' = None \<and>
   printed (refreshed 5001) = 1 \<and> rates (refreshed 5001) ''USD_EUR'' = Some 0.85"
  by (simp add: steady_first_call)
     (simp add: steady_table_def key_def refreshed_def new_manager_def)

text \<open>
  Claim C7, amended. For every code \<open>x\<close>, \<^verbatim>\<open>get_rate(x, x)\<close> returns 1.0 on every object,
  also one that was never refreshed. It does so on the ordinary path: the staleness check
  runs first, and refreshes a stale table, and the key \<^verbatim>\<open>x_x\<close> is then looked up; it is
  never stored, so the default is returned.
\<close>

theorem same_code_rate:
  assumes "reachable m" and "in_range fluct"
  shows "\<exists>m'. update_rates_if_needed current_time fluct t_end m = Inr m' \<and>
           get_rate x x current_time fluct t_end m = Inr (1, m')"
proof -
  from update_rates_if_needed_total [OF assms(2)]
  obtain m' where m': "update_rates_if_needed current_time fluct t_end m = Inr m'" by blast
  from reachable_inv [OF assms(1)] have "update_interval m = 3600 \<and> consistent (rates m)" .
  from update_rates_if_needed_inv [OF this m'] have "dom (rates m') \<subseteq> set all_keys"
    by (simp add: consistent_dom)
  with key_self_not_stored [of x] have "rates m' (key x x) = None" by blast
  with m' show ?thesis by (simp add: get_rate_def)
qed

theorem same_code_rate_witness:
  "reachable (refreshed 5001) \<and> in_range peak \<and>
   update_rates_if_needed 5002 peak 5003 (refreshed 5001) = Inr (refreshed 5001) \<and>
   get_rate ''JPY'' ''JPY'' 5002 peak 5003 (refreshed 5001) = Inr (1, refreshed 5001)"
proof -
  have u: "update_rates_if_needed 5002 peak 5003 (refreshed 5001) = Inr (refreshed 5001)"
    by (simp add: update_rates_if_needed_def refreshed_def)
  from same_code_rate [OF reachable_refreshed in_range_peak, of 5002 5003 "''JPY''"] u
  show ?thesis
    by (simp add: reachable_refreshed in_range_peak)
qed

subsection \<open>The unknown-pair fallback\<close>

text \<open>
  Claim C8. For every pair whose key is absent from the table after the refresh step,
  \<^verbatim>\<open>get_rate\<close> returns the default 1.0 and does not raise: whenever the refresh step
  itself comes back (with the object \<open>m'\<close>), the call returns, its result is 1 and the
  object is the one the refresh step left. The same holds for every absent key.
\<close>

theorem get_rate_absent_default:
  assumes "update_rates_if_needed current_time fluct t_end m = Inr m'"
    and "rates m' (key a b) = None"
  shows "get_rate a b current_time fluct t_end m = Inr (1, m')"
  using assms by (simp add: get_rate_def)

theorem get_rate_absent_default_witness:
  "update_rates_if_needed 10 (\<lambda>i. 0) 10 new_manager = Inr new_manager \<and>
   rates new_manager (key ''ABC'' ''XYZ'') = None \<and>
   get_rate ''ABC'' ''XYZ'' 10 (\<lambda>i. 0) 10 new_manager = Inr (1, new_manager)"
proof -
  have h1: "update_rates_if_needed 10 (\<lambda>i. 0) 10 new_manager = Inr new_manager"
    by (simp add: update_rates_if_needed_def new_manager_def)
  have h2: "rates new_manager (key ''ABC'' ''XYZ'') = None"
    by (simp add: new_manager_def)
  show ?thesis
    using h1 h2 get_rate_absent_default [OF h1 h2] by simp
qed

subsection \<open>Upper and lower case\<close>

text \<open>
  Claim C9, as stated: the two codes are treated without regard to case. The code compares
  the key as it is spelled: on the same object and with the same draws, \<^verbatim>\<open>USD\<close> and
  \<^verbatim>\<open>EUR\<close> give 0.85, \<^verbatim>\<open>usd\<close> and \<^verbatim>\<open>eur\<close> give the default 1.
\<close>

theorem case_matters:
  "get_rate ''USD'' ''EUR'' 5000 steady 5001 new_manager = Inr (0.85, refreshed 5001) \<and>
   get_rate ''usd'' ''eur'' 5000 steady 5001 new_manager = Inr (1, refreshed 5001)"
  by (simp add: steady_first_call)
     (simp add: steady_table_def key_def)

text \<open>
  Claim C9, amended. The codes are matched exactly as spelled. The stored keys are in upper
  case, so a call in which either code has a lower-case letter finds no entry and returns
  the default 1.0, whatever the upper-case spelling of the same codes returns.
\<close>

theorem lower_case_rate:
  assumes "reachable m" and "in_range fluct" and "c \<in> set a \<union> set b" and "lower_case c"
  shows "\<exists>m'. update_rates_if_needed current_time fluct t_end m = Inr m' \<and>
           get_rate a b current_time fluct t_end m = Inr (1, m')"
proof -
  from update_rates_if_needed_total [OF assms(2)]
  obtain m' where m': "update_rates_if_needed current_time fluct t_end m = Inr m'" by blast
  from reachable_inv [OF assms(1)] have "update_interval m = 3600 \<and> consistent (rates m)" .
  from update_rates_if_needed_inv [OF this m'] have d: "dom (rates m') \<subseteq> set all_keys"
    by (simp add: consistent_dom)
  from assms(3) have "c \<in> set (key a b)" by (auto simp: key_def)
  with all_keys_upper [of "key a b" c] assms(4) have "key a b \<notin> set all_keys" by blast
  with d have "rates m' (key a b) = None" by blast
  with m' show ?thesis by (simp add: get_rate_def)
qed

theorem lower_case_rate_witness:
  "reachable new_manager \<and> in_range steady \<and>
   CHR ''u'' \<in> set ''usd'' \<union> set ''eur'' \<and> lower_case (CHR ''u'') \<and>
   update_rates_if_needed 5000 steady 5001 new_manager = Inr (refreshed 5001) \<and>
   get_rate ''usd'' ''eur'' 5000 steady 5001 new_manager = Inr (1, refreshed 5001)"
proof -
  have c: "CHR ''u'' \<in> set ''usd'' \<union> set ''eur''" by simp
  have l: "lower_case (CHR ''u'')" by (simp add: lower_case_def)
  have u: "update_rates_if_needed 5000 steady 5001 new_manager = Inr (refreshed 5001)"
    by (simp add: update_rates_if_needed_def cold_start steady_refresh)
  from lower_case_rate [OF reachable.init in_range_steady c l, of 5000 5001] u c l
  show ?thesis
    by (simp add: reachable.init in_range_steady)
qed

subsection \<open>The product of a rate and its reverse\<close>

text \<open>
  Claim C10 (universal reciprocal product). For every two codes \<open>a\<close> and \<open>b\<close>, stored or not:
  if \<^verbatim>\<open>get_rate(a, b)\<close> returns \<open>v1\<close> and \<^verbatim>\<open>get_rate(b, a)\<close>, called next and finding the
  table fresh (so that both read the same generation), returns \<open>v2\<close>, then \<open>v1 * v2 = 1\<close>.
\<close>

theorem reciprocal_product:
  assumes "reachable m"
    and "get_rate a b current_time fluct t_end m = Inr (v1, m1)"
    and "get_rate b a current_time' fluct' t_end' m1 = Inr (v2, m2)"
    and "\<not> current_time' - last_updated m1 > update_interval m1"
  shows "v1 * v2 = 1 \<and> m2 = m1"
proof -
  from reachable.call [OF assms(1,2)] have "reachable m1" .
  from reachable_inv [OF this] have c: "consistent (rates m1)" by simp
  from assms(2) have v1: "v1 = (case rates m1 (key a b) of None \<Rightarrow> 1 | Some r \<Rightarrow> r)"
    by (simp add: get_rate_Inr)
  from assms(3,4) have m2: "m2 = m1"
    and v2: "v2 = (case rates m1 (key b a) of None \<Rightarrow> 1 | Some r \<Rightarrow> r)"
    by (auto simp: get_rate_Inr update_rates_if_needed_def)
  have step: "rates m1 (key q p) = Some (1 / x) \<and> x \<noteq> 0" if "rates m1 (key p q) = Some x" for p q x
  proof -
    from c that have x: "x \<noteq> 0" and "\<exists>k. reverse_pair (key p q) = Inr k \<and> rates m1 k = Some (1 / x)"
      unfolding consistent_def by blast+
    then obtain k where k: "reverse_pair (key p q) = Inr k" "rates m1 k = Some (1 / x)" by blast
    from c that have "key p q \<in> set all_keys" unfolding consistent_def by blast
    from reverse_pair_key [OF key_in_all_keys [OF this]] k x show ?thesis by simp
  qed
  have "v1 * v2 = 1"
  proof (cases "rates m1 (key a b)")
    case (Some x)
    from step [OF Some] show ?thesis by (simp add: v1 v2 Some)
  next
    case None
    have "rates m1 (key b a) = None"
    proof (cases "rates m1 (key b a)")
      case (Some y)
      from step [OF Some] None show ?thesis by simp
    qed simp
    with None show ?thesis by (simp add: v1 v2)
  qed
  with m2 show ?thesis by simp
qed

theorem reciprocal_product_witness:
  "reachable new_manager \<and>
   get_rate ''USD'' ''EUR'' 5000 steady 5001 new_manager = Inr (0.85, refreshed 5001) \<and>
   get_rate ''EUR'' ''USD'' 5002 steady 5003 (refreshed 5001) = Inr (1 / 0.85, refreshed 5001) \<and>
   \<not> 5002 - last_updated (refreshed 5001) > update_interval (refreshed 5001) \<and>
   (0.85 :: real) * (1 / 0.85) = 1"
proof -
  have g1: "get_rate ''USD'' ''EUR'' 5000 steady 5001 new_manager = Inr (0.85, refreshed 5001)"
    by (simp add: steady_first_call steady_usd_eur)
  have g2: "get_rate ''EUR'' ''USD'' 5002 steady 5003 (refreshed 5001) = Inr (1 / 0.85, refreshed 5001)"
    by (simp add: refreshed_call steady_eur_usd)
  have f: "\<not> 5002 - last_updated (refreshed 5001) > update_interval (refreshed 5001)"
    by (simp add: refreshed_def)
  from reciprocal_product [OF reachable.init g1 g2 f] g1 g2 f show ?thesis
    by (simp add: reachable.init)
qed

end
